theory Spec2Isabelle
  imports Main "HOL-Library.Word" "HOL-Library.AList"
begin

section \<open>JavaScript values as hello.js sees them\<close>

text \<open>
  A JavaScript string is a sequence of 16-bit code units. Source text that is plain
  ASCII is written as an Isabelle string and converted with \<open>js\<close>.
\<close>

type_synonym code_unit = "16 word"
type_synonym js_string = "code_unit list"

definition js :: "string \<Rightarrow> js_string" where
  "js s = map (\<lambda>c. of_nat (of_char c)) s"

text \<open>
  The values a handler can meet in an incoming message: the message is parsed JSON, so it
  is built from null, booleans, numbers, strings and objects; \<open>undefined\<close> is what reading
  a missing property gives. hello.js computes with no number, it only passes one on
  (\<open>chat.id\<close>) or prints one, so a number is represented by the text JavaScript prints
  for it (Number::toString, which tells any two numbers apart except the two zeros):
  \<open>JNum (js ''7'')\<close> is 7, and 2^64 is \<open>JNum (js ''18446744073709552000'')\<close>. An
  object is the list of its own properties; the first binding of a key is the one a read
  finds.
\<close>

datatype jsval =
    JUndefined
  | JNull
  | JBool bool
  | JNum js_string
  | JStr js_string
  | JObj "(string \<times> jsval) list"

datatype js_error = TypeError string

text \<open>
  Property read \<open>v.k\<close>. Reading a property of \<open>undefined\<close> or \<open>null\<close> throws a
  TypeError (recorded with the property that was being read); a missing property of an
  object is \<open>undefined\<close>. On a boolean, number or string the read goes to the prototype,
  which defines none of the names hello.js reads (\<open>chat\<close>, \<open>id\<close>, \<open>from\<close>,
  \<open>first_name\<close>), so the result is \<open>undefined\<close>.
\<close>

fun get_prop :: "jsval \<Rightarrow> string \<Rightarrow> js_error + jsval" where
  "get_prop JUndefined k = Inl (TypeError k)"
| "get_prop JNull k = Inl (TypeError k)"
| "get_prop (JObj ps) k = Inr (case map_of ps k of None \<Rightarrow> JUndefined | Some v \<Rightarrow> v)"
| "get_prop (JBool b) k = Inr JUndefined"
| "get_prop (JNum n) k = Inr JUndefined"
| "get_prop (JStr s) k = Inr JUndefined"

text \<open>
  The string conversion a template literal applies to an interpolated value. An object
  parsed from JSON has no callable \<open>toString\<close> of its own: without an own property of
  that name the inherited one answers \<open>[object Object]\<close>; with one (a data value, not
  callable) the conversion finds no primitive and throws a TypeError. A number converts
  to the text that represents it.
\<close>

fun to_string :: "jsval \<Rightarrow> js_error + js_string" where
  "to_string JUndefined = Inr (js ''undefined'')"
| "to_string JNull = Inr (js ''null'')"
| "to_string (JBool b) = Inr (if b then js ''true'' else js ''false'')"
| "to_string (JNum n) = Inr n"
| "to_string (JStr s) = Inr s"
| "to_string (JObj ps) =
     (case map_of ps ''toString'' of
        None \<Rightarrow> Inr (js ''[object Object]'')
      | Some v \<Rightarrow> Inl (TypeError ''toString''))"

section \<open>Regular expressions\<close>

text \<open>
  The fragment of the regular-expression syntax that hello.js uses: a literal code unit,
  the class \<open>\s\<close>, the assertion \<open>$\<close> (no flags, so it holds only at the end of the
  input), sequence and alternation (a non-capturing group only groups).
\<close>

datatype regex =
    RChar code_unit
  | RSpace
  | REnd
  | RSeq regex regex
  | RAlt regex regex

text \<open>
  The code units \<open>\s\<close> accepts: the WhiteSpace and LineTerminator productions of
  ECMAScript (tab, LF, VT, FF, CR, space, NBSP, U+1680, U+2000 to U+200A, U+2028, U+2029,
  U+202F, U+205F, U+3000, U+FEFF).
\<close>

definition js_whitespace :: "code_unit \<Rightarrow> bool" where
  "js_whitespace c \<longleftrightarrow>
     c \<in> {0x09, 0x0A, 0x0B, 0x0C, 0x0D, 0x20, 0xA0, 0x1680,
          0x2000, 0x2001, 0x2002, 0x2003, 0x2004, 0x2005, 0x2006, 0x2007, 0x2008, 0x2009, 0x200A,
          0x2028, 0x2029, 0x202F, 0x205F, 0x3000, 0xFEFF}"

text \<open>
  Backtracking matcher: \<open>rmatch r s k\<close> holds when \<open>r\<close> matches a prefix of the
  remaining input \<open>s\<close> and the continuation \<open>k\<close> accepts what is left.
\<close>

fun rmatch :: "regex \<Rightarrow> js_string \<Rightarrow> (js_string \<Rightarrow> bool) \<Rightarrow> bool" where
  "rmatch (RChar c) s k = (case s of [] \<Rightarrow> False | x # xs \<Rightarrow> x = c \<and> k xs)"
| "rmatch RSpace s k = (case s of [] \<Rightarrow> False | x # xs \<Rightarrow> js_whitespace x \<and> k xs)"
| "rmatch REnd s k = (s = [] \<and> k s)"
| "rmatch (RSeq a b) s k = rmatch a s (\<lambda>rest. rmatch b rest k)"
| "rmatch (RAlt a b) s k = (rmatch a s k \<or> rmatch b s k)"

text \<open>
  \<open>regexp.exec(text)\<close> on a regular expression without the sticky flag tries every start
  position from the left; \<open>re_test\<close> tells whether some position matches.
\<close>

fun re_test :: "regex \<Rightarrow> js_string \<Rightarrow> bool" where
  "re_test r [] = rmatch r [] (\<lambda>_. True)"
| "re_test r (x # xs) = (rmatch r (x # xs) (\<lambda>_. True) \<or> re_test r xs)"

section \<open>hello.js\<close>

text \<open>
  The dispatch handle \<open>bot\<close> as hello.js uses it: the calls it has received. A handler
  is a closure of the module; the only one is the arrow function passed to \<open>onText\<close>.
\<close>

datatype handler = HelloHandler

record bot =
  onText_calls :: "(regex \<times> handler) list"
  on_calls :: "(string \<times> handler) list"
  sendMessage_calls :: "(jsval \<times> js_string) list"

definition onText :: "regex \<Rightarrow> handler \<Rightarrow> bot \<Rightarrow> bot" where
  "onText re h b = b\<lparr>onText_calls := onText_calls b @ [(re, h)]\<rparr>"

definition on_event :: "string \<Rightarrow> handler \<Rightarrow> bot \<Rightarrow> bot" where
  "on_event kind h b = b\<lparr>on_calls := on_calls b @ [(kind, h)]\<rparr>"

definition sendMessage :: "jsval \<Rightarrow> js_string \<Rightarrow> bot \<Rightarrow> bot" where
  "sendMessage chatId text b = b\<lparr>sendMessage_calls := sendMessage_calls b @ [(chatId, text)]\<rparr>"

text \<open>The \<open>metadata\<close> constant, hello.js lines 6 to 10.\<close>

definition metadata :: jsval where
  "metadata = JObj
     [(''name'', JStr (js ''Hello World'')),
      (''category'', JStr (js ''Test'')),
      (''description'', JStr (js ''A simple external command to test the loader''))]"

text \<open>The regular expression literal \<open>/\/hello(?:\s|$)/\<close> of line 14.\<close>

definition hello_pattern :: regex where
  "hello_pattern =
     RSeq (RChar 0x2F) (RSeq (RChar 0x68) (RSeq (RChar 0x65) (RSeq (RChar 0x6C)
       (RSeq (RChar 0x6C) (RSeq (RChar 0x6F) (RAlt RSpace REnd))))))"

text \<open>
  The template literal of line 18: waving hand (U+1F44B), the greeting with the
  interpolated value, rocket (U+1F680); the two emoji are surrogate pairs.
\<close>

definition greeting :: "js_string \<Rightarrow> js_string" where
  "greeting firstName =
     [0xD83D, 0xDC4B] @ js '' Hello '' @ firstName
       @ js ''! This is an external command working perfectly! '' @ [0xD83D, 0xDE80]"

text \<open>
  The handler of lines 14 to 19. It is an async function: a throw inside it rejects the
  promise it returns. The result is that outcome and the handle after the call.
\<close>

datatype outcome = Fulfilled | Rejected js_error

definition hello_handler :: "bot \<Rightarrow> jsval \<Rightarrow> outcome \<times> bot" where
  "hello_handler b msg =
     (case get_prop msg ''chat'' of Inl e \<Rightarrow> (Rejected e, b) | Inr chat \<Rightarrow>
      case get_prop chat ''id'' of Inl e \<Rightarrow> (Rejected e, b) | Inr chatId \<Rightarrow>
      case get_prop msg ''from'' of Inl e \<Rightarrow> (Rejected e, b) | Inr sender \<Rightarrow>
      case get_prop sender ''first_name'' of Inl e \<Rightarrow> (Rejected e, b) | Inr firstName \<Rightarrow>
      case to_string firstName of Inl e \<Rightarrow> (Rejected e, b) | Inr shown \<Rightarrow>
        (Fulfilled, sendMessage chatId (greeting shown) b))"

fun run_handler :: "handler \<Rightarrow> bot \<Rightarrow> jsval \<Rightarrow> outcome \<times> bot" where
  "run_handler HelloHandler b msg = hello_handler b msg"

text \<open>The function \<open>register\<close>, lines 12 to 20.\<close>

definition register :: "bot \<Rightarrow> bot" where
  "register b = onText hello_pattern HelloHandler b"

text \<open>
  \<open>module.exports\<close>, lines 22 to 25: an object with the members \<open>metadata\<close> (a data
  value) and \<open>register\<close> (a function).
\<close>

datatype js_function = RegisterFn

datatype member = Data jsval | Callable js_function

fun call_function :: "js_function \<Rightarrow> bot \<Rightarrow> bot" where
  "call_function RegisterFn b = register b"

fun typeof_js :: "member \<Rightarrow> string" where
  "typeof_js (Callable f) = ''function''"
| "typeof_js (Data JUndefined) = ''undefined''"
| "typeof_js (Data JNull) = ''object''"
| "typeof_js (Data (JBool b)) = ''boolean''"
| "typeof_js (Data (JNum n)) = ''number''"
| "typeof_js (Data (JStr s)) = ''string''"
| "typeof_js (Data (JObj ps)) = ''object''"

definition module_exports :: "(string \<times> member) list" where
  "module_exports = [(''metadata'', Data metadata), (''register'', Callable RegisterFn)]"

section \<open>The loader: sync cycle and reconciliation\<close>

text \<open>
  The repository holds command modules and their documentation; the loader that polls
  it, loads the modules and registers them is described by the specification only. The
  definitions of this section are that description, made executable.
\<close>

text \<open>Modelled from the spec: a source file path, relative to the repository root (section 3).\<close>

type_synonym path = string

text \<open>Modelled from the spec: a content fingerprint, kept opaque (sections 3 and 4.2).\<close>

type_synonym fingerprint = nat

text \<open>Modelled from the spec: the opaque handle of a DispatchSubscription (section 3).\<close>

type_synonym handle = nat

text \<open>
  Modelled from the spec: what a module can subscribe to through the dispatch handle, a
  text pattern or an event kind (sections 4.4 and 6).
\<close>

datatype subscription = TextPattern regex | EventKind string

text \<open>
  Modelled from the spec: the dispatch layer, of which no source is present. It keeps
  the active subscriptions, each under the handle it returned for it, hands out fresh
  handles, logs every removal call it receives and counts the messages sent through it.
\<close>

record dispatch_layer =
  active :: "(handle \<times> subscription) list"
  next_handle :: handle
  released :: "handle list"
  messages_sent :: nat

text \<open>Modelled from the spec: the dispatch layer's subscribe operation (section 3, DispatchSubscription).\<close>

definition subscribe :: "subscription \<Rightarrow> dispatch_layer \<Rightarrow> handle \<times> dispatch_layer" where
  "subscribe sub d =
     (next_handle d, d\<lparr>active := active d @ [(next_handle d, sub)], next_handle := Suc (next_handle d)\<rparr>)"

text \<open>
  Modelled from the spec: the dispatch layer's removal operation (section 4.3: removing
  a subscription that is already absent is tolerated).
\<close>

definition remove_subscription :: "handle \<Rightarrow> dispatch_layer \<Rightarrow> dispatch_layer" where
  "remove_subscription h d =
     d\<lparr>active := filter (\<lambda>e. fst e \<noteq> h) (active d), released := released d @ [h]\<rparr>"

text \<open>
  Modelled from the spec: what a module file is to the loader (sections 4.3, 4.4 and 6).
  Evaluating the file fails to parse, throws at top level, or yields an exports object
  with or without a callable \<open>register\<close> and with or without metadata. A \<open>register\<close>
  entry point can only use the capabilities of the dispatch handle, so its run is a
  sequence of subscribe and send steps that may end in a throw.
\<close>

datatype reg_step = SubscribeText regex | SubscribeEvent string | SendMessage | Throw

text \<open>Modelled from the spec: the optional metadata object of a module (section 6).\<close>

record module_metadata =
  md_name :: string
  md_category :: string
  md_description :: string
  md_commands :: "string list"

text \<open>
  Modelled from the spec: the result of evaluating a module file (section 4.3); the
  \<open>register\<close> member is absent when the exports expose no callable \<open>register\<close>.
\<close>

datatype module_file =
    Unparsable
  | ThrowsAtTopLevel
  | Exports "reg_step list option" "module_metadata option"

text \<open>
  Modelled from the spec: a candidate file of the mirror, as its content fingerprint and
  what evaluating it gives (section 4.2).
\<close>

record repo_file =
  file_fingerprint :: fingerprint
  file_module :: module_file

text \<open>
  Modelled from the spec: a snapshot of the mirror's candidate files by path (sections
  4.2 and 9).
\<close>

type_synonym snapshot = "(path \<times> repo_file) list"


text \<open>Modelled from the spec: the load status of a ModuleRecord (section 3).\<close>

datatype load_status = Loaded | Failed | Unloaded

text \<open>Modelled from the spec: ModuleRecord (section 3).\<close>

record module_record =
  rec_path :: path
  rec_fingerprint :: fingerprint
  rec_metadata :: "module_metadata option"
  rec_status :: load_status
  rec_subs :: "handle list"

text \<open>Modelled from the spec: the reasons of a LoadError (sections 4.3 and 4.4).\<close>

datatype load_error = ParseError | TopLevelThrow | NoRegister | RegisterThrew

text \<open>Modelled from the spec: Module Loader's \<open>load\<close> (section 4.3).\<close>

fun load :: "module_file \<Rightarrow> load_error + (reg_step list \<times> module_metadata option)" where
  "load Unparsable = Inl ParseError"
| "load ThrowsAtTopLevel = Inl TopLevelThrow"
| "load (Exports None md) = Inl NoRegister"
| "load (Exports (Some steps) md) = Inr (steps, md)"

text \<open>Modelled from the spec: Module Loader's \<open>unload\<close> (section 4.3).\<close>

definition unload :: "module_record \<Rightarrow> dispatch_layer \<Rightarrow> dispatch_layer" where
  "unload r d = fold remove_subscription (rec_subs r) d"

text \<open>
  Modelled from the spec: the run of a module's \<open>register\<close> entry point against the
  dispatch handle (section 4.4). The result tells whether it threw, the handles of the
  subscriptions it made, in order, and the dispatch layer afterwards.
\<close>

fun run_steps :: "reg_step list \<Rightarrow> dispatch_layer \<Rightarrow> handle list \<Rightarrow> bool \<times> handle list \<times> dispatch_layer" where
  "run_steps [] d hs = (False, hs, d)"
| "run_steps (SubscribeText re # rest) d hs =
     (case subscribe (TextPattern re) d of (h, d') \<Rightarrow> run_steps rest d' (hs @ [h]))"
| "run_steps (SubscribeEvent kind # rest) d hs =
     (case subscribe (EventKind kind) d of (h, d') \<Rightarrow> run_steps rest d' (hs @ [h]))"
| "run_steps (SendMessage # rest) d hs =
     run_steps rest (d\<lparr>messages_sent := Suc (messages_sent d)\<rparr>) hs"
| "run_steps (Throw # rest) d hs = (True, hs, d)"

text \<open>
  Modelled from the spec: Registration Bridge's \<open>register\<close> (section 4.4): a throw is a
  LoadError and the subscriptions made before it are rolled back; on success the handles
  are returned for the record.
\<close>

definition bridge_register :: "reg_step list \<Rightarrow> dispatch_layer \<Rightarrow> (load_error + handle list) \<times> dispatch_layer" where
  "bridge_register steps d =
     (case run_steps steps d [] of
        (True, hs, d') \<Rightarrow> (Inl RegisterThrew, fold remove_subscription hs d')
      | (False, hs, d') \<Rightarrow> (Inr hs, d'))"

text \<open>
  Modelled from the spec: a call of the Module Loader's \<open>load\<close> or \<open>unload\<close> for a
  path, as counted by the idempotence property of section 8.
\<close>

datatype loader_call = LoadCall path | UnloadCall path

text \<open>
  Modelled from the spec: the Sync Scheduler's state (sections 3 and 4.5): the map from
  path to ModuleRecord, and whether the first cycle is still to come. The dispatch layer
  is carried along, and so is the log of the load and unload calls made.
\<close>

record scheduler =
  records :: "(path \<times> module_record) list"
  dispatch :: dispatch_layer
  calls :: "loader_call list"
  first_cycle :: bool

text \<open>
  Modelled from the spec: the state at process start (section 4.5): nothing tracked,
  nothing subscribed, the first cycle still to come.
\<close>

definition init_scheduler :: scheduler where
  "init_scheduler =
     \<lparr>records = [],
      dispatch = \<lparr>active = [], next_handle = 0, released = [], messages_sent = 0\<rparr>,
      calls = [], first_cycle = True\<rparr>"

text \<open>Modelled from the spec: the record of a path whose load or registration failed (section 4.5).\<close>

definition failed_record :: "path \<Rightarrow> repo_file \<Rightarrow> module_record" where
  "failed_record p f =
     \<lparr>rec_path = p, rec_fingerprint = file_fingerprint f, rec_metadata = None,
      rec_status = Failed, rec_subs = []\<rparr>"

text \<open>Modelled from the spec: the record of a path that loaded and registered (sections 3 and 4.4).\<close>

definition loaded_record :: "path \<Rightarrow> repo_file \<Rightarrow> module_metadata option \<Rightarrow> handle list \<Rightarrow> module_record" where
  "loaded_record p f md hs =
     \<lparr>rec_path = p, rec_fingerprint = file_fingerprint f, rec_metadata = md,
      rec_status = Loaded, rec_subs = hs\<rparr>"

text \<open>
  Modelled from the spec: "attempt load+register; record outcome" (section 4.5, added
  and changed files).
\<close>

definition load_and_register :: "path \<Rightarrow> repo_file \<Rightarrow> scheduler \<Rightarrow> scheduler" where
  "load_and_register p f st =
     (case load (file_module f) of
        Inl e \<Rightarrow>
          st\<lparr>records := AList.update p (failed_record p f) (records st),
             calls := calls st @ [LoadCall p]\<rparr>
      | Inr (steps, md) \<Rightarrow>
          (case bridge_register steps (dispatch st) of
             (Inl e, d') \<Rightarrow>
               st\<lparr>records := AList.update p (failed_record p f) (records st),
                  dispatch := d', calls := calls st @ [LoadCall p]\<rparr>
           | (Inr hs, d') \<Rightarrow>
               st\<lparr>records := AList.update p (loaded_record p f md hs) (records st),
                  dispatch := d', calls := calls st @ [LoadCall p]\<rparr>))"

text \<open>
  Modelled from the spec: unloading the tracked record of a path (section 4.5): its
  subscriptions are released and the record is left Unloaded, owning none.
\<close>

definition unload_path :: "path \<Rightarrow> scheduler \<Rightarrow> scheduler" where
  "unload_path p st =
     (case map_of (records st) p of
        None \<Rightarrow> st
      | Some r \<Rightarrow>
          st\<lparr>records := AList.update p (r\<lparr>rec_status := Unloaded, rec_subs := []\<rparr>) (records st),
             dispatch := unload r (dispatch st),
             calls := calls st @ [UnloadCall p]\<rparr>)"

text \<open>Modelled from the spec: "For removed: unload then delete the record" (section 4.5).\<close>

definition do_removed :: "path \<Rightarrow> scheduler \<Rightarrow> scheduler" where
  "do_removed p st = (let st' = unload_path p st in st'\<lparr>records := AList.delete p (records st')\<rparr>)"

text \<open>
  Modelled from the spec: "For changed: unload the old record, then attempt
  load+register as if added" (section 4.5).
\<close>

definition do_changed :: "path \<times> repo_file \<Rightarrow> scheduler \<Rightarrow> scheduler" where
  "do_changed pf st = load_and_register (fst pf) (snd pf) (unload_path (fst pf) st)"

text \<open>Modelled from the spec: "For added: attempt load+register; record outcome" (section 4.5).\<close>

definition do_added :: "path \<times> repo_file \<Rightarrow> scheduler \<Rightarrow> scheduler" where
  "do_added pf st = load_and_register (fst pf) (snd pf) st"

text \<open>
  Modelled from the spec: the first of the three disjoint sets of the Reconciling state
  (section 4.5), computed from the tracked map and the candidates: removed, a tracked
  path no longer present.
\<close>

definition removed_paths :: "scheduler \<Rightarrow> snapshot \<Rightarrow> path list" where
  "removed_paths st snap = filter (\<lambda>p. map_of snap p = None) (map fst (records st))"

text \<open>Modelled from the spec: changed, an existing path whose fingerprint differs (section 4.5).\<close>

definition changed_files :: "scheduler \<Rightarrow> snapshot \<Rightarrow> (path \<times> repo_file) list" where
  "changed_files st snap =
     filter (\<lambda>pf. case map_of (records st) (fst pf) of
                    None \<Rightarrow> False
                  | Some r \<Rightarrow> rec_fingerprint r \<noteq> file_fingerprint (snd pf)) snap"

text \<open>Modelled from the spec: added, a new path (section 4.5).\<close>

definition added_files :: "scheduler \<Rightarrow> snapshot \<Rightarrow> (path \<times> repo_file) list" where
  "added_files st snap = filter (\<lambda>pf. map_of (records st) (fst pf) = None) snap"

text \<open>Modelled from the spec: the Reconciling state of the Sync Scheduler (section 4.5).\<close>

definition reconcile :: "scheduler \<Rightarrow> snapshot \<Rightarrow> scheduler" where
  "reconcile st snap =
     fold do_added (added_files st snap)
       (fold do_changed (changed_files st snap)
          (fold do_removed (removed_paths st snap) st))"

text \<open>
  Modelled from the spec: one sync cycle (sections 4.1, 4.5 and 7). The mirror's update
  fails (the previous state is retained), reports the revision unchanged (reconciliation
  is skipped unless this is the first cycle) or reports a new revision.
\<close>

datatype mirror_update = UpdateFailed | RevisionUnchanged | RevisionChanged

definition sync_cycle :: "scheduler \<Rightarrow> mirror_update \<times> snapshot \<Rightarrow> scheduler" where
  "sync_cycle st c =
     (case fst c of
        UpdateFailed \<Rightarrow> st
      | RevisionUnchanged \<Rightarrow>
          (if first_cycle st then (reconcile st (snd c))\<lparr>first_cycle := False\<rparr> else st)
      | RevisionChanged \<Rightarrow> (reconcile st (snd c))\<lparr>first_cycle := False\<rparr>)"

text \<open>Modelled from the spec: the scheduler's loop, from process start (section 4.5).\<close>

definition run_cycles :: "(mirror_update \<times> snapshot) list \<Rightarrow> scheduler" where
  "run_cycles cs = foldl sync_cycle init_scheduler cs"

text \<open>Modelled from the spec: the set of active dispatch subscriptions, by handle (section 8).\<close>

definition active_handles :: "dispatch_layer \<Rightarrow> handle set" where
  "active_handles d = fst ` set (active d)"

text \<open>
  Modelled from the spec: a file loads and registers without a LoadError (sections 4.3
  and 4.4): it evaluates, exposes \<open>register\<close>, and \<open>register\<close> does not throw.
\<close>

definition loads_ok :: "repo_file \<Rightarrow> bool" where
  "loads_ok f = (case load (file_module f) of Inl e \<Rightarrow> False | Inr (steps, md) \<Rightarrow> Throw \<notin> set steps)"

text \<open>
  Modelled from the spec: the first scenario file of section 8, \<open>hello.js\<close> as this
  repository has it: one text subscription, and its metadata.
\<close>

definition hello_file :: repo_file where
  "hello_file =
     \<lparr>file_fingerprint = 1,
      file_module = Exports (Some [SubscribeText hello_pattern])
        (Some \<lparr>md_name = ''Hello World'', md_category = ''Test'',
               md_description = ''A simple external command to test the loader'',
               md_commands = []\<rparr>)\<rparr>"

text \<open>Modelled from the spec: a pattern for \<open>/hi\<close> (section 8).\<close>

definition hi_pattern :: regex where
  "hi_pattern = RSeq (RChar 0x2F) (RSeq (RChar 0x68) (RChar 0x69))"

text \<open>
  Modelled from the spec: \<open>hello.js\<close> edited to add a second subscription for \<open>/hi\<close>
  (section 8).
\<close>

definition hello_file_edited :: repo_file where
  "hello_file_edited =
     \<lparr>file_fingerprint = 2,
      file_module = Exports (Some [SubscribeText hello_pattern, SubscribeText hi_pattern])
        (Some \<lparr>md_name = ''Hello World'', md_category = ''Test'',
               md_description = ''A simple external command to test the loader'',
               md_commands = []\<rparr>)\<rparr>"

text \<open>Modelled from the spec: \<open>broken.js\<close>, which throws at top level (section 8).\<close>

definition broken_file :: repo_file where
  "broken_file = \<lparr>file_fingerprint = 3, file_module = ThrowsAtTopLevel\<rparr>"

section \<open>Invariants of the loader\<close>

text \<open>
  The dispatch layer is well formed when no handle is active twice or released twice, no
  released handle is active, and the handles issued so far (those below \<open>next_handle\<close>)
  are exactly the active and the released ones.
\<close>

definition dispatch_ok :: "dispatch_layer \<Rightarrow> bool" where
  "dispatch_ok d \<longleftrightarrow>
     distinct (map fst (active d)) \<and> distinct (released d)
     \<and> (\<forall>h. h \<in> set (released d) \<longrightarrow> h \<notin> active_handles d)
     \<and> (\<forall>h. h < next_handle d \<longleftrightarrow> h \<in> set (released d) \<or> h \<in> active_handles d)"

text \<open>
  The scheduler's invariant: the dispatch layer is well formed; a record owns each of its
  handles once, and none unless it is Loaded; no two records share a handle; and the
  active handles are exactly the handles owned by the records.
\<close>

definition sched_inv :: "scheduler \<Rightarrow> bool" where
  "sched_inv st \<longleftrightarrow>
     dispatch_ok (dispatch st)
     \<and> (\<forall>p r. map_of (records st) p = Some r \<longrightarrow>
           distinct (rec_subs r) \<and> (rec_status r \<noteq> Loaded \<longrightarrow> rec_subs r = []))
     \<and> (\<forall>p q r r'. map_of (records st) p = Some r \<and> map_of (records st) q = Some r' \<and> p \<noteq> q
           \<longrightarrow> set (rec_subs r) \<inter> set (rec_subs r') = {})
     \<and> (\<forall>h. h \<in> active_handles (dispatch st) \<longleftrightarrow>
           (\<exists>p r. map_of (records st) p = Some r \<and> h \<in> set (rec_subs r)))"

text \<open>The load and unload calls made for one path, in order.\<close>

definition calls_of :: "path \<Rightarrow> loader_call list \<Rightarrow> loader_call list" where
  "calls_of p cs = filter (\<lambda>c. c = LoadCall p \<or> c = UnloadCall p) cs"

text \<open>What the scheduler holds about one path: its record and the calls made for it.\<close>

definition view :: "path \<Rightarrow> scheduler \<Rightarrow> module_record option \<times> loader_call list" where
  "view p st = (map_of (records st) p, calls_of p (calls st))"

text \<open>
  Modelled from the spec: the subscriptions a \<open>register\<close> run makes, in order, up to
  its first throw (section 4.4).
\<close>

fun subs_before_throw :: "reg_step list \<Rightarrow> subscription list" where
  "subs_before_throw [] = []"
| "subs_before_throw (SubscribeText re # rest) = TextPattern re # subs_before_throw rest"
| "subs_before_throw (SubscribeEvent kind # rest) = EventKind kind # subs_before_throw rest"
| "subs_before_throw (SendMessage # rest) = subs_before_throw rest"
| "subs_before_throw (Throw # rest) = []"

text \<open>
  Modelled from the spec: the record that loading and registering a file by itself
  leads to (sections 4.3 to 4.5): Failed and owning nothing when the file does not load
  or its \<open>register\<close> throws, otherwise Loaded, with the file's fingerprint and metadata
  and one handle for each subscription \<open>register\<close> makes.
\<close>

definition recorded_outcome :: "path \<Rightarrow> repo_file \<Rightarrow> module_record \<Rightarrow> bool" where
  "recorded_outcome p f r \<longleftrightarrow>
     (case load (file_module f) of
        Inl e \<Rightarrow> r = failed_record p f
      | Inr (steps, md) \<Rightarrow>
          if Throw \<in> set steps then r = failed_record p f
          else rec_path r = p \<and> rec_fingerprint r = file_fingerprint f
               \<and> rec_metadata r = md \<and> rec_status r = Loaded
               \<and> length (rec_subs r) = length (subs_before_throw steps))"

text \<open>
  Modelled from the spec: the scenario of section 8. First the repository holds
  \<open>hello.js\<close>; then \<open>hello.js\<close> is edited and \<open>broken.js\<close> appears.
\<close>

definition scenario_cycles :: "(mirror_update \<times> snapshot) list" where
  "scenario_cycles =
     [(RevisionChanged, [(''hello.js'', hello_file)]),
      (RevisionChanged, [(''hello.js'', hello_file_edited), (''broken.js'', broken_file)])]"

text \<open>
  Modelled from the spec: a module whose \<open>register\<close> subscribes and then throws
  (section 8, rollback property).
\<close>

definition throwing_file :: repo_file where
  "throwing_file =
     \<lparr>file_fingerprint = 4,
      file_module = Exports (Some [SubscribeText hello_pattern, SubscribeEvent ''callback_query'', Throw]) None\<rparr>"


section \<open>Properties of hello.js\<close>

lemma js_hello: "js ''/hello'' = [0x2F, 0x68, 0x65, 0x6C, 0x6C, 0x6F]"
  by (simp add: js_def)

lemma rmatch_hello:
  "rmatch hello_pattern s (\<lambda>_. True) \<longleftrightarrow>
     (\<exists>post. s = js ''/hello'' @ post \<and>
        (post = [] \<or> (\<exists>c rest. post = c # rest \<and> js_whitespace c)))"
  by (auto simp add: js_hello hello_pattern_def split: list.splits)

lemma re_test_iff:
  "re_test r s \<longleftrightarrow> (\<exists>pre post. s = pre @ post \<and> rmatch r post (\<lambda>_. True))"
proof (induction s)
  case Nil
  then show ?case by simp
next
  case (Cons x xs)
  show ?case
  proof
    assume "re_test r (x # xs)"
    then consider "rmatch r (x # xs) (\<lambda>_. True)" | "re_test r xs" by auto
    then show "\<exists>pre post. x # xs = pre @ post \<and> rmatch r post (\<lambda>_. True)"
    proof cases
      case 1
      then have "x # xs = [] @ (x # xs) \<and> rmatch r (x # xs) (\<lambda>_. True)" by simp
      then show ?thesis by blast
    next
      case 2
      with Cons.IH obtain pre post where "xs = pre @ post" "rmatch r post (\<lambda>_. True)" by blast
      then have "x # xs = (x # pre) @ post \<and> rmatch r post (\<lambda>_. True)" by simp
      then show ?thesis by blast
    qed
  next
    assume "\<exists>pre post. x # xs = pre @ post \<and> rmatch r post (\<lambda>_. True)"
    then obtain pre post where pp: "x # xs = pre @ post" "rmatch r post (\<lambda>_. True)" by blast
    show "re_test r (x # xs)"
    proof (cases pre)
      case Nil
      with pp have "rmatch r (x # xs) (\<lambda>_. True)" by simp
      then show ?thesis by simp
    next
      case (Cons y ys)
      with pp have "xs = ys @ post" by simp
      with pp(2) Cons.IH have "re_test r xs" by blast
      then show ?thesis by simp
    qed
  qed
qed

lemma hello_test_iff:
  "re_test hello_pattern s \<longleftrightarrow>
     (\<exists>pre post. s = pre @ js ''/hello'' @ post \<and>
        (post = [] \<or> (\<exists>c rest. post = c # rest \<and> js_whitespace c)))"
  unfolding re_test_iff rmatch_hello by blast

lemma hello_examples:
  "re_test hello_pattern (js ''/hello'')"
  "re_test hello_pattern (js ''/hello there'')"
  "re_test hello_pattern (js ''say /hello'')"
  "\<not> re_test hello_pattern (js ''/helloworld'')"
  "\<not> re_test hello_pattern (js ''/hello@botname'')"
  by (simp_all add: js_def hello_pattern_def js_whitespace_def)


text \<open>
  C6. The object hello.js exports has a member \<open>register\<close> that is a function (the
  module's \<open>register\<close>) and a member \<open>metadata\<close> that is an object whose \<open>name\<close> is the
  string "Hello World", whose \<open>category\<close> is the string "Test" and whose \<open>description\<close>
  is a string.
\<close>

theorem hello_exports_contract:
  "(\<exists>f. map_of module_exports ''register'' = Some (Callable f)
        \<and> typeof_js (Callable f) = ''function'' \<and> call_function f = register)
   \<and> (\<exists>m. map_of module_exports ''metadata'' = Some (Data m)
        \<and> typeof_js (Data m) = ''object''
        \<and> get_prop m ''name'' = Inr (JStr (js ''Hello World''))
        \<and> get_prop m ''category'' = Inr (JStr (js ''Test''))
        \<and> (\<exists>d. get_prop m ''description'' = Inr (JStr d)))"
  by (auto simp add: module_exports_def metadata_def)

text \<open>
  C7. Whatever the dispatch handle has received so far, \<open>register\<close> makes exactly one
  more call on it: one \<open>onText\<close> subscription, with the pattern of line 14 and the
  module's handler. It subscribes to no event kind and sends nothing, and the pattern
  matches the text "/hello".
\<close>

theorem register_one_text_subscription:
  "onText_calls (register b) = onText_calls b @ [(hello_pattern, HelloHandler)]
   \<and> length (onText_calls (register b)) = Suc (length (onText_calls b))
   \<and> on_calls (register b) = on_calls b
   \<and> sendMessage_calls (register b) = sendMessage_calls b
   \<and> re_test hello_pattern (js ''/hello'')"
  by (simp add: register_def onText_def hello_examples(1))

text \<open>
  C9. The pattern is unanchored: it matches exactly the texts that contain "/hello"
  either at the very end or followed by a whitespace code unit. So it matches "/hello",
  "/hello there" and "say /hello", and matches neither "/helloworld" nor
  "/hello@botname".
\<close>

theorem hello_pattern_unanchored:
  "(\<forall>s. re_test hello_pattern s \<longleftrightarrow>
       (\<exists>pre post. s = pre @ js ''/hello'' @ post \<and>
          (post = [] \<or> (\<exists>c rest. post = c # rest \<and> js_whitespace c))))
   \<and> re_test hello_pattern (js ''/hello'')
   \<and> re_test hello_pattern (js ''/hello there'')
   \<and> re_test hello_pattern (js ''say /hello'')
   \<and> \<not> re_test hello_pattern (js ''/helloworld'')
   \<and> \<not> re_test hello_pattern (js ''/hello@botname'')"
  using hello_test_iff hello_examples by blast




section \<open>Properties of the loader\<close>

lemma remove_subscription_simps:
  "active (remove_subscription h d) = filter (\<lambda>e. fst e \<noteq> h) (active d)"
  "released (remove_subscription h d) = released d @ [h]"
  "next_handle (remove_subscription h d) = next_handle d"
  "messages_sent (remove_subscription h d) = messages_sent d"
  by (simp_all add: remove_subscription_def)

lemma fold_remove_active:
  "active (fold remove_subscription hs d) = filter (\<lambda>e. fst e \<notin> set hs) (active d)"
  by (induction hs arbitrary: d) (auto simp add: remove_subscription_simps intro: filter_cong)

lemma fold_remove_released:
  "released (fold remove_subscription hs d) = released d @ hs"
  by (induction hs arbitrary: d) (simp_all add: remove_subscription_simps)

lemma fold_remove_next:
  "next_handle (fold remove_subscription hs d) = next_handle d"
  by (induction hs arbitrary: d) (simp_all add: remove_subscription_simps)

lemma fold_remove_handles:
  "active_handles (fold remove_subscription hs d) = active_handles d - set hs"
  by (auto simp add: active_handles_def fold_remove_active)

lemma run_steps_props:
  "run_steps steps d hs = (t, hs', d') \<Longrightarrow>
     next_handle d \<le> next_handle d'
     \<and> hs' = hs @ [next_handle d ..< next_handle d']
     \<and> released d' = released d
     \<and> (\<exists>new. active d' = active d @ new \<and> map fst new = [next_handle d ..< next_handle d'])
     \<and> (t \<longleftrightarrow> Throw \<in> set steps)"
proof (induction steps d hs rule: run_steps.induct)
  case (1 d hs)
  then show ?case by simp
next
  case (2 re rest d hs)
  let ?d1 = "snd (subscribe (TextPattern re) d)"
  from 2(2) have run: "run_steps rest ?d1 (hs @ [next_handle d]) = (t, hs', d')"
    by (simp add: subscribe_def)
  have d1: "next_handle ?d1 = Suc (next_handle d)" "released ?d1 = released d"
    "active ?d1 = active d @ [(next_handle d, TextPattern re)]"
    by (simp_all add: subscribe_def)
  from 2(1) [of "next_handle d" ?d1] run
  have ih: "next_handle ?d1 \<le> next_handle d'"
    "hs' = (hs @ [next_handle d]) @ [next_handle ?d1 ..< next_handle d']"
    "released d' = released ?d1"
    "\<exists>new. active d' = active ?d1 @ new \<and> map fst new = [next_handle ?d1 ..< next_handle d']"
    "t \<longleftrightarrow> Throw \<in> set rest"
    by (simp_all add: subscribe_def)
  from ih(1) d1(1) have lt: "next_handle d < next_handle d'" by simp
  from ih(4) obtain new where new: "active d' = active ?d1 @ new"
    "map fst new = [next_handle ?d1 ..< next_handle d']" by blast
  have "active d' = active d @ ((next_handle d, TextPattern re) # new)"
    using new(1) d1(3) by simp
  moreover have "map fst ((next_handle d, TextPattern re) # new) = [next_handle d ..< next_handle d']"
    using new(2) d1(1) lt by (simp add: upt_conv_Cons)
  ultimately have ex: "\<exists>new. active d' = active d @ new \<and> map fst new = [next_handle d ..< next_handle d']"
    by blast
  show ?case using ih lt d1 ex by (simp add: upt_conv_Cons)
next
  case (3 kind rest d hs)
  let ?d1 = "snd (subscribe (EventKind kind) d)"
  from 3(2) have run: "run_steps rest ?d1 (hs @ [next_handle d]) = (t, hs', d')"
    by (simp add: subscribe_def)
  have d1: "next_handle ?d1 = Suc (next_handle d)" "released ?d1 = released d"
    "active ?d1 = active d @ [(next_handle d, EventKind kind)]"
    by (simp_all add: subscribe_def)
  from 3(1) [of "next_handle d" ?d1] run
  have ih: "next_handle ?d1 \<le> next_handle d'"
    "hs' = (hs @ [next_handle d]) @ [next_handle ?d1 ..< next_handle d']"
    "released d' = released ?d1"
    "\<exists>new. active d' = active ?d1 @ new \<and> map fst new = [next_handle ?d1 ..< next_handle d']"
    "t \<longleftrightarrow> Throw \<in> set rest"
    by (simp_all add: subscribe_def)
  from ih(1) d1(1) have lt: "next_handle d < next_handle d'" by simp
  from ih(4) obtain new where new: "active d' = active ?d1 @ new"
    "map fst new = [next_handle ?d1 ..< next_handle d']" by blast
  have "active d' = active d @ ((next_handle d, EventKind kind) # new)"
    using new(1) d1(3) by simp
  moreover have "map fst ((next_handle d, EventKind kind) # new) = [next_handle d ..< next_handle d']"
    using new(2) d1(1) lt by (simp add: upt_conv_Cons)
  ultimately have ex: "\<exists>new. active d' = active d @ new \<and> map fst new = [next_handle d ..< next_handle d']"
    by blast
  show ?case using ih lt d1 ex by (simp add: upt_conv_Cons)
next
  case (4 rest d hs)
  then show ?case by simp
next
  case (5 rest d hs)
  then show ?case by auto
qed

lemma dispatch_okD:
  assumes "dispatch_ok d"
  shows "distinct (map fst (active d))" and "distinct (released d)"
    and "\<And>h. h \<in> set (released d) \<Longrightarrow> h \<notin> active_handles d"
    and "\<And>h. h \<in> set (released d) \<Longrightarrow> h < next_handle d"
    and "\<And>h. h \<in> active_handles d \<Longrightarrow> h < next_handle d"
    and "\<And>h. h < next_handle d \<Longrightarrow> h \<in> set (released d) \<or> h \<in> active_handles d"
  using assms unfolding dispatch_ok_def by blast+

lemma dispatch_okI:
  assumes "distinct (map fst (active d))" and "distinct (released d)"
    and "\<And>h. h \<in> set (released d) \<Longrightarrow> h \<notin> active_handles d"
    and "\<And>h. h \<in> set (released d) \<Longrightarrow> h < next_handle d"
    and "\<And>h. h \<in> active_handles d \<Longrightarrow> h < next_handle d"
    and "\<And>h. h < next_handle d \<Longrightarrow> h \<in> set (released d) \<or> h \<in> active_handles d"
  shows "dispatch_ok d"
  using assms unfolding dispatch_ok_def by blast

lemma bridge_register_ok:
  assumes ok: "dispatch_ok d" and br: "bridge_register steps d = (Inr hs, d')"
  shows "dispatch_ok d'" and "active_handles d' = active_handles d \<union> set hs"
    and "distinct hs" and "set hs \<inter> active_handles d = {}"
    and "released d' = released d" and "Throw \<notin> set steps"
    and "hs = [next_handle d ..< next_handle d']"
proof -
  note okD = dispatch_okD [OF ok]
  obtain t hs0 d0 where run: "run_steps steps d [] = (t, hs0, d0)"
    by (metis prod_cases3)
  with br have eq: "t = False" "hs0 = hs" "d0 = d'"
    by (auto simp add: bridge_register_def split: if_splits bool.splits)
  from run_steps_props [OF run] eq obtain new where
    p: "next_handle d \<le> next_handle d'" "hs = [next_handle d ..< next_handle d']"
       "released d' = released d" "active d' = active d @ new"
       "map fst new = [next_handle d ..< next_handle d']" "Throw \<notin> set steps"
    by auto
  show "hs = [next_handle d ..< next_handle d']" by (rule p(2))
  show "released d' = released d" by (rule p(3))
  show "Throw \<notin> set steps" by (rule p(6))
  show "distinct hs" using p(2) by simp
  have hs_iff: "\<And>h. h \<in> set hs \<longleftrightarrow> next_handle d \<le> h \<and> h < next_handle d'"
    using p(2) by simp
  have new: "fst ` set new = set hs" using p(2,5) by (metis list.set_map)
  show ah: "active_handles d' = active_handles d \<union> set hs"
    using p(4) new by (simp add: active_handles_def image_Un)
  show disj: "set hs \<inter> active_handles d = {}"
  proof (rule ccontr)
    assume "set hs \<inter> active_handles d \<noteq> {}"
    then obtain h where "h \<in> set hs" "h \<in> active_handles d" by blast
    with okD(5) [of h] hs_iff [of h] show False by simp
  qed
  show "dispatch_ok d'"
  proof (rule dispatch_okI)
    have "set (map fst (active d)) \<inter> set (map fst new) = {}"
      using disj new by (simp add: active_handles_def Int_commute)
    then show "distinct (map fst (active d'))"
      using okD(1) p(4,5) by simp
    show "distinct (released d')" using okD(2) p(3) by simp
  next
    fix h assume h: "h \<in> set (released d')"
    then have r: "h \<in> set (released d)" using p(3) by simp
    from okD(4) [OF r] hs_iff [of h] have "h \<notin> set hs" by simp
    with okD(3) [OF r] show "h \<notin> active_handles d'" by (simp add: ah)
    from okD(4) [OF r] p(1) show "h < next_handle d'" by simp
  next
    fix h assume "h \<in> active_handles d'"
    then consider "h \<in> active_handles d" | "h \<in> set hs" by (auto simp add: ah)
    then show "h < next_handle d'"
    proof cases
      case 1 with okD(5) [of h] p(1) show ?thesis by simp
    next
      case 2 with hs_iff [of h] show ?thesis by simp
    qed
  next
    fix h assume lt: "h < next_handle d'"
    show "h \<in> set (released d') \<or> h \<in> active_handles d'"
    proof (cases "h < next_handle d")
      case True
      from okD(6) [OF True] show ?thesis by (auto simp add: p(3) ah)
    next
      case False
      with lt hs_iff [of h] have "h \<in> set hs" by simp
      then show ?thesis by (simp add: ah)
    qed
  qed
qed

lemma bridge_register_throw:
  assumes ok: "dispatch_ok d" and br: "bridge_register steps d = (Inl e, d')"
  shows "dispatch_ok d'" and "active d' = active d" and "e = RegisterThrew"
    and "released d' = released d @ [next_handle d ..< next_handle d']"
    and "Throw \<in> set steps" and "next_handle d \<le> next_handle d'"
proof -
  note okD = dispatch_okD [OF ok]
  obtain t hs0 d0 where run: "run_steps steps d [] = (t, hs0, d0)"
    by (metis prod_cases3)
  with br have eq: "t = True" "d' = fold remove_subscription hs0 d0" "e = RegisterThrew"
    by (auto simp add: bridge_register_def split: if_splits bool.splits)
  from run_steps_props [OF run] eq obtain new where
    p: "next_handle d \<le> next_handle d0" "hs0 = [next_handle d ..< next_handle d0]"
       "released d0 = released d" "active d0 = active d @ new"
       "map fst new = [next_handle d ..< next_handle d0]" "Throw \<in> set steps"
    by auto
  show "e = RegisterThrew" by (rule eq(3))
  show "Throw \<in> set steps" by (rule p(6))
  have nx: "next_handle d' = next_handle d0" by (simp add: eq(2) fold_remove_next)
  show le: "next_handle d \<le> next_handle d'" using p(1) nx by simp
  show rel: "released d' = released d @ [next_handle d ..< next_handle d']"
    using p(2,3) nx by (simp add: eq(2) fold_remove_released)
  have hs_iff: "\<And>h. h \<in> set hs0 \<longleftrightarrow> next_handle d \<le> h \<and> h < next_handle d'"
    using p(2) nx by simp
  have old: "fst x \<notin> set hs0" if "x \<in> set (active d)" for x
  proof -
    from that have "fst x \<in> active_handles d" by (simp add: active_handles_def)
    with okD(5) [of "fst x"] hs_iff [of "fst x"] show ?thesis by simp
  qed
  have new: "fst x \<in> set hs0" if "x \<in> set new" for x
  proof -
    from that have "fst x \<in> set (map fst new)" by simp
    then show ?thesis using p(2,5) by simp
  qed
  have "filter (\<lambda>x. fst x \<notin> set hs0) (active d) = active d"
    using old by (simp add: filter_id_conv)
  moreover have "filter (\<lambda>x. fst x \<notin> set hs0) new = []"
    using new by (simp add: filter_empty_conv)
  ultimately show act: "active d' = active d"
    by (simp add: eq(2) fold_remove_active p(4))
  have ah: "active_handles d' = active_handles d" using act by (simp add: active_handles_def)
  show "dispatch_ok d'"
  proof (rule dispatch_okI)
    show "distinct (map fst (active d'))" using okD(1) act by simp
    have "set (released d) \<inter> set [next_handle d ..< next_handle d'] = {}"
    proof (rule ccontr)
      assume "set (released d) \<inter> set [next_handle d ..< next_handle d'] \<noteq> {}"
      then obtain h where "h \<in> set (released d)" "next_handle d \<le> h" by auto
      with okD(4) [of h] show False by simp
    qed
    then show "distinct (released d')" using okD(2) rel by simp
  next
    fix h assume h: "h \<in> set (released d')"
    then consider "h \<in> set (released d)" | "next_handle d \<le> h \<and> h < next_handle d'"
      using rel by auto
    then show "h \<notin> active_handles d'"
    proof cases
      case 1 with okD(3) [of h] show ?thesis by (simp add: ah)
    next
      case 2 with okD(5) [of h] show ?thesis by (auto simp add: ah)
    qed
    from h rel okD(4) [of h] le show "h < next_handle d'" by auto
  next
    fix h assume "h \<in> active_handles d'"
    with okD(5) [of h] le show "h < next_handle d'" by (simp add: ah)
  next
    fix h assume lt: "h < next_handle d'"
    show "h \<in> set (released d') \<or> h \<in> active_handles d'"
    proof (cases "h < next_handle d")
      case True
      from okD(6) [OF True] show ?thesis by (auto simp add: rel ah)
    next
      case False
      with lt show ?thesis by (simp add: rel)
    qed
  qed
qed

lemma unload_ok:
  assumes ok: "dispatch_ok d" and sub: "set hs \<subseteq> active_handles d" and dist: "distinct hs"
  shows "dispatch_ok (fold remove_subscription hs d)"
proof (rule dispatch_okI)
  note okD = dispatch_okD [OF ok]
  let ?d' = "fold remove_subscription hs d"
  show "distinct (map fst (active ?d'))"
    using okD(1) by (simp add: fold_remove_active distinct_map_filter)
  have "set (released d) \<inter> set hs = {}" using okD(3) sub by blast
  then show "distinct (released ?d')"
    using okD(2) dist by (simp add: fold_remove_released)
  show "h \<notin> active_handles ?d'" if "h \<in> set (released ?d')" for h
    using that okD(3) [of h] by (auto simp add: fold_remove_released fold_remove_handles)
  show "h < next_handle ?d'" if "h \<in> set (released ?d')" for h
    using that okD(4) [of h] okD(5) [of h] sub
    by (auto simp add: fold_remove_released fold_remove_next)
  show "h < next_handle ?d'" if "h \<in> active_handles ?d'" for h
    using that okD(5) [of h] by (simp add: fold_remove_handles fold_remove_next)
  show "h \<in> set (released ?d') \<or> h \<in> active_handles ?d'" if "h < next_handle ?d'" for h
    using that okD(6) [of h] by (auto simp add: fold_remove_released fold_remove_handles fold_remove_next)
qed

lemma sched_invD:
  assumes "sched_inv st"
  shows "dispatch_ok (dispatch st)"
    and "\<And>p r. map_of (records st) p = Some r \<Longrightarrow> distinct (rec_subs r)"
    and "\<And>p r. map_of (records st) p = Some r \<Longrightarrow> rec_status r \<noteq> Loaded \<Longrightarrow> rec_subs r = []"
    and "\<And>p q r r' h. map_of (records st) p = Some r \<Longrightarrow> map_of (records st) q = Some r'
           \<Longrightarrow> p \<noteq> q \<Longrightarrow> h \<in> set (rec_subs r) \<Longrightarrow> h \<notin> set (rec_subs r')"
    and "\<And>h. h \<in> active_handles (dispatch st) \<Longrightarrow>
           \<exists>p r. map_of (records st) p = Some r \<and> h \<in> set (rec_subs r)"
    and "\<And>p r h. map_of (records st) p = Some r \<Longrightarrow> h \<in> set (rec_subs r)
           \<Longrightarrow> h \<in> active_handles (dispatch st)"
  using assms unfolding sched_inv_def by blast+

lemma sched_invI:
  assumes "dispatch_ok (dispatch st)"
    and "\<And>p r. map_of (records st) p = Some r \<Longrightarrow> distinct (rec_subs r)"
    and "\<And>p r. map_of (records st) p = Some r \<Longrightarrow> rec_status r \<noteq> Loaded \<Longrightarrow> rec_subs r = []"
    and "\<And>p q r r' h. map_of (records st) p = Some r \<Longrightarrow> map_of (records st) q = Some r'
           \<Longrightarrow> p \<noteq> q \<Longrightarrow> h \<in> set (rec_subs r) \<Longrightarrow> h \<notin> set (rec_subs r')"
    and "\<And>h. h \<in> active_handles (dispatch st) \<Longrightarrow>
           \<exists>p r. map_of (records st) p = Some r \<and> h \<in> set (rec_subs r)"
    and "\<And>p r h. map_of (records st) p = Some r \<Longrightarrow> h \<in> set (rec_subs r)
           \<Longrightarrow> h \<in> active_handles (dispatch st)"
  shows "sched_inv st"
  unfolding sched_inv_def
proof (intro conjI allI impI iffI)
  show "dispatch_ok (dispatch st)" by fact
next
  fix p r assume "map_of (records st) p = Some r"
  then show "distinct (rec_subs r)" by (rule assms(2))
next
  fix p r assume "map_of (records st) p = Some r" "rec_status r \<noteq> Loaded"
  then show "rec_subs r = []" by (rule assms(3))
next
  fix p q r r'
  assume "map_of (records st) p = Some r \<and> map_of (records st) q = Some r' \<and> p \<noteq> q"
  then show "set (rec_subs r) \<inter> set (rec_subs r') = {}" using assms(4) by blast
next
  fix h assume "h \<in> active_handles (dispatch st)"
  then show "\<exists>p r. map_of (records st) p = Some r \<and> h \<in> set (rec_subs r)" by (rule assms(5))
next
  fix h assume "\<exists>p r. map_of (records st) p = Some r \<and> h \<in> set (rec_subs r)"
  then show "h \<in> active_handles (dispatch st)" using assms(6) by blast
qed

lemma unload_path_None: "map_of (records st) p = None \<Longrightarrow> unload_path p st = st"
  by (simp add: unload_path_def)

lemma unload_path_Some:
  assumes "map_of (records st) p = Some r"
  shows "map_of (records (unload_path p st)) = (map_of (records st))(p \<mapsto> r\<lparr>rec_status := Unloaded, rec_subs := []\<rparr>)"
    and "dispatch (unload_path p st) = fold remove_subscription (rec_subs r) (dispatch st)"
    and "calls (unload_path p st) = calls st @ [UnloadCall p]"
    and "first_cycle (unload_path p st) = first_cycle st"
  using assms by (simp_all add: unload_path_def unload_def update_conv')

lemma unload_path_inv:
  assumes inv: "sched_inv st"
  shows "sched_inv (unload_path p st)"
proof (cases "map_of (records st) p")
  case None
  with inv show ?thesis by (simp add: unload_path_None)
next
  case (Some r)
  note iD = sched_invD [OF inv]
  note u = unload_path_Some [OF Some]
  let ?st' = "unload_path p st"
  have look: "map_of (records ?st') q = Some x \<longleftrightarrow>
      (if q = p then x = r\<lparr>rec_status := Unloaded, rec_subs := []\<rparr> else map_of (records st) q = Some x)" for q x
    by (auto simp add: u(1))
  show ?thesis
  proof (rule sched_invI)
    have "set (rec_subs r) \<subseteq> active_handles (dispatch st)" using iD(6) [OF Some] by blast
    then show "dispatch_ok (dispatch ?st')"
      unfolding u(2) using iD(1) iD(2) [OF Some] by (intro unload_ok)
  next
    fix q x assume "map_of (records ?st') q = Some x"
    then show "distinct (rec_subs x)" using iD(2) [of q x] by (auto simp add: look split: if_splits)
  next
    fix q x assume "map_of (records ?st') q = Some x" "rec_status x \<noteq> Loaded"
    then show "rec_subs x = []" using iD(3) [of q x] by (auto simp add: look split: if_splits)
  next
    fix q q' x x' h
    assume "map_of (records ?st') q = Some x" "map_of (records ?st') q' = Some x'" "q \<noteq> q'"
      "h \<in> set (rec_subs x)"
    then show "h \<notin> set (rec_subs x')"
      using iD(4) [of q x q' x' h] by (auto simp add: look split: if_splits)
  next
    fix h assume "h \<in> active_handles (dispatch ?st')"
    then have h: "h \<in> active_handles (dispatch st)" "h \<notin> set (rec_subs r)"
      by (simp_all add: u(2) fold_remove_handles)
    from iD(5) [OF h(1)] obtain q x where qx: "map_of (records st) q = Some x" "h \<in> set (rec_subs x)"
      by blast
    with h(2) Some have "q \<noteq> p" by auto
    with qx have "map_of (records ?st') q = Some x" by (simp add: look)
    with qx(2) show "\<exists>q x. map_of (records ?st') q = Some x \<and> h \<in> set (rec_subs x)" by blast
  next
    fix q x h assume a: "map_of (records ?st') q = Some x" "h \<in> set (rec_subs x)"
    then have qp: "q \<noteq> p" and qx: "map_of (records st) q = Some x"
      by (auto simp add: look split: if_splits)
    from iD(4) [OF qx Some qp a(2)] iD(6) [OF qx a(2)]
    show "h \<in> active_handles (dispatch ?st')" by (simp add: u(2) fold_remove_handles)
  qed
qed

lemma unload_path_no_subs:
  "map_of (records (unload_path p st)) p = Some r' \<Longrightarrow> rec_subs r' = []"
  by (cases "map_of (records st) p") (auto simp add: unload_path_def update_conv')

lemma bridge_register_released:
  "set (released d) \<subseteq> set (released (snd (bridge_register steps d)))"
proof -
  obtain t hs0 d0 where run: "run_steps steps d [] = (t, hs0, d0)"
    by (metis prod_cases3)
  from run_steps_props [OF run] have "released d0 = released d" by simp
  then show ?thesis
    by (cases t) (simp_all add: bridge_register_def run fold_remove_released)
qed

lemma bridge_register_Inr_no_throw:
  "bridge_register steps d = (Inr hs, d') \<Longrightarrow> Throw \<notin> set steps"
proof -
  assume br: "bridge_register steps d = (Inr hs, d')"
  obtain t hs0 d0 where run: "run_steps steps d [] = (t, hs0, d0)"
    by (metis prod_cases3)
  with br have "t = False" by (cases t) (simp_all add: bridge_register_def)
  with run_steps_props [OF run] show ?thesis by simp
qed

lemma bridge_register_Inl_throw:
  "bridge_register steps d = (Inl e, d') \<Longrightarrow> Throw \<in> set steps"
proof -
  assume br: "bridge_register steps d = (Inl e, d')"
  obtain t hs0 d0 where run: "run_steps steps d [] = (t, hs0, d0)"
    by (metis prod_cases3)
  with br have "t = True" by (cases t) (simp_all add: bridge_register_def)
  with run_steps_props [OF run] show ?thesis by simp
qed

lemma load_and_register_result:
  fixes p f st
  defines "st' \<equiv> load_and_register p f st"
  shows "(\<not> loads_ok f
           \<and> map_of (records st') = (map_of (records st))(p \<mapsto> failed_record p f)
           \<and> (dispatch_ok (dispatch st) \<longrightarrow>
                 dispatch_ok (dispatch st') \<and> active (dispatch st') = active (dispatch st)))
       \<or> (loads_ok f
           \<and> (\<exists>hs md. map_of (records st') = (map_of (records st))(p \<mapsto> loaded_record p f md hs)
                \<and> (dispatch_ok (dispatch st) \<longrightarrow>
                      dispatch_ok (dispatch st')
                      \<and> active_handles (dispatch st') = active_handles (dispatch st) \<union> set hs
                      \<and> distinct hs \<and> set hs \<inter> active_handles (dispatch st) = {}
                      \<and> released (dispatch st') = released (dispatch st))))"
proof (cases "load (file_module f)")
  case (Inl e)
  then show ?thesis
    by (simp add: st'_def load_and_register_def loads_ok_def update_conv')
next
  case (Inr sm)
  obtain steps md where sm: "sm = (steps, md)" by (cases sm)
  obtain res d' where br: "bridge_register steps (dispatch st) = (res, d')"
    by (cases "bridge_register steps (dispatch st)")
  show ?thesis
  proof (cases res)
    case (Inl e)
    from br Inl have thr: "Throw \<in> set steps" by (auto dest: bridge_register_Inl_throw)
    have rec: "map_of (records st') = (map_of (records st))(p \<mapsto> failed_record p f)"
      and d: "dispatch st' = d'"
      using Inr sm br Inl by (simp_all add: st'_def load_and_register_def update_conv')
    have "dispatch_ok d' \<and> active d' = active (dispatch st)" if "dispatch_ok (dispatch st)"
      using bridge_register_throw(1,2) [OF that] br Inl by blast
    with thr rec d Inr sm show ?thesis by (simp add: loads_ok_def)
  next
    case (Inr hs)
    from br Inr have nothr: "Throw \<notin> set steps" by (auto dest: bridge_register_Inr_no_throw)
    have rec: "map_of (records st') = (map_of (records st))(p \<mapsto> loaded_record p f md hs)"
      and d: "dispatch st' = d'"
      using \<open>load (file_module f) = Inr sm\<close> sm br Inr
      by (simp_all add: st'_def load_and_register_def update_conv' loaded_record_def)
    have "dispatch_ok d' \<and> active_handles d' = active_handles (dispatch st) \<union> set hs
          \<and> distinct hs \<and> set hs \<inter> active_handles (dispatch st) = {}
          \<and> released d' = released (dispatch st)" if ok: "dispatch_ok (dispatch st)"
    proof -
      from br Inr have b: "bridge_register steps (dispatch st) = (Inr hs, d')" by simp
      from bridge_register_ok(1-5) [OF ok b] show ?thesis by blast
    qed
    with nothr rec d \<open>load (file_module f) = Inr sm\<close> sm have
      "loads_ok f \<and> (\<exists>hs md. map_of (records st') = (map_of (records st))(p \<mapsto> loaded_record p f md hs)
                \<and> (dispatch_ok (dispatch st) \<longrightarrow>
                      dispatch_ok (dispatch st')
                      \<and> active_handles (dispatch st') = active_handles (dispatch st) \<union> set hs
                      \<and> distinct hs \<and> set hs \<inter> active_handles (dispatch st) = {}
                      \<and> released (dispatch st') = released (dispatch st)))"
      by (auto simp add: loads_ok_def)
    then show ?thesis by blast
  qed
qed

lemma load_and_register_calls:
  "calls (load_and_register p f st) = calls st @ [LoadCall p]"
  "first_cycle (load_and_register p f st) = first_cycle st"
  by (auto simp add: load_and_register_def split: sum.splits prod.splits)

lemma load_and_register_released:
  "set (released (dispatch st)) \<subseteq> set (released (dispatch (load_and_register p f st)))"
proof (cases "load (file_module f)")
  case (Inl e)
  then show ?thesis by (simp add: load_and_register_def)
next
  case (Inr sm)
  obtain steps md where sm: "sm = (steps, md)" by (cases sm)
  have "dispatch (load_and_register p f st) = snd (bridge_register steps (dispatch st))"
    using Inr sm by (auto simp add: load_and_register_def split: sum.splits prod.splits)
  then show ?thesis using bridge_register_released [of "dispatch st" steps] by simp
qed

lemma load_and_register_inv:
  assumes inv: "sched_inv st"
    and free: "\<And>r. map_of (records st) p = Some r \<Longrightarrow> rec_subs r = []"
  shows "sched_inv (load_and_register p f st)"
proof -
  note iD = sched_invD [OF inv]
  let ?st' = "load_and_register p f st"
  from load_and_register_result [of f p st] iD(1)
  consider (failed) "map_of (records ?st') = (map_of (records st))(p \<mapsto> failed_record p f)"
      "dispatch_ok (dispatch ?st')" "active (dispatch ?st') = active (dispatch st)"
    | (loaded) hs md where "map_of (records ?st') = (map_of (records st))(p \<mapsto> loaded_record p f md hs)"
      "dispatch_ok (dispatch ?st')"
      "active_handles (dispatch ?st') = active_handles (dispatch st) \<union> set hs"
      "distinct hs" "set hs \<inter> active_handles (dispatch st) = {}"
    by blast
  then show ?thesis
  proof cases
    case failed
    have look: "map_of (records ?st') q = Some x \<longleftrightarrow>
        (if q = p then x = failed_record p f else map_of (records st) q = Some x)" for q x
      by (auto simp add: failed(1))
    have ah: "active_handles (dispatch ?st') = active_handles (dispatch st)"
      by (simp add: active_handles_def failed(3))
    have fr: "rec_subs (failed_record p f) = []" "rec_status (failed_record p f) = Failed"
      by (simp_all add: failed_record_def)
    show ?thesis
    proof (rule sched_invI)
      show "dispatch_ok (dispatch ?st')" by (rule failed(2))
    next
      fix q x assume "map_of (records ?st') q = Some x"
      then show "distinct (rec_subs x)" using iD(2) [of q x] fr by (auto simp add: look split: if_splits)
    next
      fix q x assume "map_of (records ?st') q = Some x" "rec_status x \<noteq> Loaded"
      then show "rec_subs x = []" using iD(3) [of q x] fr by (auto simp add: look split: if_splits)
    next
      fix q q' x x' h
      assume "map_of (records ?st') q = Some x" "map_of (records ?st') q' = Some x'" "q \<noteq> q'"
        "h \<in> set (rec_subs x)"
      then show "h \<notin> set (rec_subs x')"
        using iD(4) [of q x q' x' h] fr by (auto simp add: look split: if_splits)
    next
      fix h assume "h \<in> active_handles (dispatch ?st')"
      then have "h \<in> active_handles (dispatch st)" by (simp add: ah)
      from iD(5) [OF this] obtain q x where qx: "map_of (records st) q = Some x" "h \<in> set (rec_subs x)"
        by blast
      with free [of x] have "q \<noteq> p" by auto
      with qx have "map_of (records ?st') q = Some x" by (simp add: look)
      with qx(2) show "\<exists>q x. map_of (records ?st') q = Some x \<and> h \<in> set (rec_subs x)" by blast
    next
      fix q x h assume a: "map_of (records ?st') q = Some x" "h \<in> set (rec_subs x)"
      then have "q \<noteq> p \<and> map_of (records st) q = Some x"
        using fr by (auto simp add: look split: if_splits)
      with iD(6) [of q x h] a(2) show "h \<in> active_handles (dispatch ?st')" by (simp add: ah)
    qed
  next
    case loaded
    have look: "map_of (records ?st') q = Some x \<longleftrightarrow>
        (if q = p then x = loaded_record p f md hs else map_of (records st) q = Some x)" for q x
      by (auto simp add: loaded(1))
    have lr: "rec_subs (loaded_record p f md hs) = hs" "rec_status (loaded_record p f md hs) = Loaded"
      by (simp_all add: loaded_record_def)
    have fresh: "h \<notin> set hs" if "map_of (records st) q = Some x" "h \<in> set (rec_subs x)" for q x h
      using iD(6) [OF that] loaded(5) by blast
    show ?thesis
    proof (rule sched_invI)
      show "dispatch_ok (dispatch ?st')" by (rule loaded(2))
    next
      fix q x assume "map_of (records ?st') q = Some x"
      then show "distinct (rec_subs x)"
        using iD(2) [of q x] lr loaded(4) by (auto simp add: look split: if_splits)
    next
      fix q x assume "map_of (records ?st') q = Some x" "rec_status x \<noteq> Loaded"
      then show "rec_subs x = []" using iD(3) [of q x] lr by (auto simp add: look split: if_splits)
    next
      fix q q' x x' h
      assume "map_of (records ?st') q = Some x" "map_of (records ?st') q' = Some x'" "q \<noteq> q'"
        "h \<in> set (rec_subs x)"
      then show "h \<notin> set (rec_subs x')"
        using iD(4) [of q x q' x' h] fresh [of q x h] fresh [of q' x' h] lr
        by (auto simp add: look split: if_splits)
    next
      fix h assume "h \<in> active_handles (dispatch ?st')"
      then consider "h \<in> active_handles (dispatch st)" | "h \<in> set hs" by (auto simp add: loaded(3))
      then show "\<exists>q x. map_of (records ?st') q = Some x \<and> h \<in> set (rec_subs x)"
      proof cases
        case 1
        from iD(5) [OF 1] obtain q x where qx: "map_of (records st) q = Some x" "h \<in> set (rec_subs x)"
          by blast
        with free [of x] have "q \<noteq> p" by auto
        with qx have "map_of (records ?st') q = Some x" by (simp add: look)
        with qx(2) show ?thesis by blast
      next
        case 2
        have "map_of (records ?st') p = Some (loaded_record p f md hs)" by (simp add: look)
        with 2 lr(1) show ?thesis by metis
      qed
    next
      fix q x h assume a: "map_of (records ?st') q = Some x" "h \<in> set (rec_subs x)"
      show "h \<in> active_handles (dispatch ?st')"
      proof (cases "q = p")
        case True
        with a lr show ?thesis by (simp add: look loaded(3))
      next
        case False
        with a have "map_of (records st) q = Some x" by (simp add: look)
        from iD(6) [OF this a(2)] show ?thesis by (simp add: loaded(3))
      qed
    qed
  qed
qed

lemma do_removed_inv:
  assumes inv: "sched_inv st"
  shows "sched_inv (do_removed p st)"
proof -
  let ?u = "unload_path p st"
  let ?st' = "do_removed p st"
  have uinv: "sched_inv ?u" by (rule unload_path_inv [OF inv])
  note iD = sched_invD [OF uinv]
  have d: "dispatch ?st' = dispatch ?u" by (simp add: do_removed_def Let_def)
  have look: "map_of (records ?st') q = Some x \<longleftrightarrow> q \<noteq> p \<and> map_of (records ?u) q = Some x" for q x
    by (auto simp add: do_removed_def Let_def delete_conv')
  show ?thesis
  proof (rule sched_invI)
    show "dispatch_ok (dispatch ?st')" using iD(1) by (simp add: d)
  next
    fix q x assume "map_of (records ?st') q = Some x"
    then show "distinct (rec_subs x)" using iD(2) [of q x] by (simp add: look)
  next
    fix q x assume "map_of (records ?st') q = Some x" "rec_status x \<noteq> Loaded"
    then show "rec_subs x = []" using iD(3) [of q x] by (simp add: look)
  next
    fix q q' x x' h
    assume "map_of (records ?st') q = Some x" "map_of (records ?st') q' = Some x'" "q \<noteq> q'"
      "h \<in> set (rec_subs x)"
    then show "h \<notin> set (rec_subs x')" using iD(4) [of q x q' x' h] by (simp add: look)
  next
    fix h assume "h \<in> active_handles (dispatch ?st')"
    then have "h \<in> active_handles (dispatch ?u)" by (simp add: d)
    from iD(5) [OF this] obtain q x where qx: "map_of (records ?u) q = Some x" "h \<in> set (rec_subs x)"
      by blast
    with unload_path_no_subs [of p st x] have "q \<noteq> p" by auto
    with qx have "map_of (records ?st') q = Some x" by (simp add: look)
    with qx(2) show "\<exists>q x. map_of (records ?st') q = Some x \<and> h \<in> set (rec_subs x)" by blast
  next
    fix q x h assume a: "map_of (records ?st') q = Some x" "h \<in> set (rec_subs x)"
    then have "map_of (records ?u) q = Some x" by (simp add: look)
    from iD(6) [OF this a(2)] show "h \<in> active_handles (dispatch ?st')" by (simp add: d)
  qed
qed

lemma do_changed_inv:
  assumes inv: "sched_inv st"
  shows "sched_inv (do_changed pf st)"
  unfolding do_changed_def
  by (rule load_and_register_inv [OF unload_path_inv [OF inv]]) (rule unload_path_no_subs)

lemma fold_do_removed_inv: "sched_inv st \<Longrightarrow> sched_inv (fold do_removed ps st)"
  by (induction ps arbitrary: st) (simp_all add: do_removed_inv)

lemma fold_do_changed_inv: "sched_inv st \<Longrightarrow> sched_inv (fold do_changed cs st)"
  by (induction cs arbitrary: st) (simp_all add: do_changed_inv)

lemma unload_path_other: "q \<noteq> p \<Longrightarrow> view q (unload_path p st) = view q st"
  by (cases "map_of (records st) p") (simp_all add: view_def unload_path_def update_conv' calls_of_def)

lemma load_and_register_other: "q \<noteq> p \<Longrightarrow> view q (load_and_register p f st) = view q st"
  by (auto simp add: view_def load_and_register_def update_conv' calls_of_def split: sum.splits prod.splits)

lemma do_removed_other: "q \<noteq> p \<Longrightarrow> view q (do_removed p st) = view q st"
  using unload_path_other [of q p st]
  by (simp add: view_def do_removed_def Let_def delete_conv')

lemma do_changed_other: "q \<noteq> fst pf \<Longrightarrow> view q (do_changed pf st) = view q st"
  by (simp add: do_changed_def load_and_register_other unload_path_other)

lemma do_added_other: "q \<noteq> fst pf \<Longrightarrow> view q (do_added pf st) = view q st"
  by (simp add: do_added_def load_and_register_other)

lemma fold_frame:
  assumes "\<And>y s. key y \<noteq> p \<Longrightarrow> V (g y s) = V s" and "p \<notin> key ` set xs"
  shows "V (fold g xs st) = V st"
proof -
  have a: "V (g y s) = V s" if "p \<noteq> key y" for y s
    using assms(1) [of y s] that by auto
  from assms(2) show ?thesis
    by (induction xs arbitrary: st) (simp_all add: a)
qed

lemma split_distinct_key:
  assumes "distinct (map key xs)" and "x \<in> set xs"
  obtains xs1 xs2 where "xs = xs1 @ x # xs2" "key x \<notin> key ` set xs1" "key x \<notin> key ` set xs2"
proof -
  from assms(2) obtain xs1 xs2 where sp: "xs = xs1 @ x # xs2" by (auto dest: split_list)
  with assms(1) have "key x \<notin> key ` set xs1" "key x \<notin> key ` set xs2" by auto
  with sp that show thesis by blast
qed

lemma fold_do_removed_view:
  "q \<notin> set ps \<Longrightarrow> view q (fold do_removed ps st) = view q st"
  using fold_frame [of "\<lambda>p. p" q "view q" do_removed ps st] by (simp add: do_removed_other)

lemma fold_do_changed_view:
  "q \<notin> fst ` set cs \<Longrightarrow> view q (fold do_changed cs st) = view q st"
  using fold_frame [of fst q "view q" do_changed cs st] by (simp add: do_changed_other)

lemma fold_do_added_view:
  "q \<notin> fst ` set cs \<Longrightarrow> view q (fold do_added cs st) = view q st"
  using fold_frame [of fst q "view q" do_added cs st] by (simp add: do_added_other)

lemma view_records: "view q s = view q s' \<Longrightarrow> map_of (records s) q = map_of (records s') q"
  by (simp add: view_def)

lemma fold_do_added_inv:
  "sched_inv st \<Longrightarrow> distinct (map fst xs) \<Longrightarrow>
   (\<And>pf. pf \<in> set xs \<Longrightarrow> map_of (records st) (fst pf) = None) \<Longrightarrow>
   sched_inv (fold do_added xs st)"
proof (induction xs arbitrary: st)
  case Nil
  then show ?case by simp
next
  case (Cons x xs)
  have inv1: "sched_inv (do_added x st)"
    unfolding do_added_def
    by (rule load_and_register_inv [OF Cons.prems(1)]) (simp add: Cons.prems(3))
  have "map_of (records (do_added x st)) (fst pf) = None" if "pf \<in> set xs" for pf
  proof -
    from Cons.prems(2) have "fst x \<notin> fst ` set xs" by simp
    with that have "fst pf \<noteq> fst x" by (metis imageI)
    from view_records [OF do_added_other [OF this]] Cons.prems(3) [of pf] that
    show ?thesis by simp
  qed
  with Cons.IH [OF inv1] Cons.prems(2) show ?case by simp
qed

lemma removed_paths_iff:
  "q \<in> set (removed_paths st snap) \<longleftrightarrow> map_of (records st) q \<noteq> None \<and> map_of snap q = None"
  by (auto simp add: removed_paths_def map_of_eq_None_iff)

lemma changed_files_iff:
  "pf \<in> set (changed_files st snap) \<longleftrightarrow>
     pf \<in> set snap \<and> (\<exists>r. map_of (records st) (fst pf) = Some r \<and> rec_fingerprint r \<noteq> file_fingerprint (snd pf))"
  by (auto simp add: changed_files_def split: option.splits)

lemma added_files_iff:
  "pf \<in> set (added_files st snap) \<longleftrightarrow> pf \<in> set snap \<and> map_of (records st) (fst pf) = None"
  by (auto simp add: added_files_def)

lemma in_snap_map_of: "pf \<in> set snap \<Longrightarrow> map_of snap (fst pf) \<noteq> None"
  by (metis map_of_eq_None_iff image_eqI)

lemma reconcile_inv:
  assumes inv: "sched_inv st" and dist: "distinct (map fst snap)"
  shows "sched_inv (reconcile st snap)"
proof -
  let ?s1 = "fold do_removed (removed_paths st snap) st"
  let ?s2 = "fold do_changed (changed_files st snap) ?s1"
  have inv2: "sched_inv ?s2" by (intro fold_do_changed_inv fold_do_removed_inv inv)
  have dadd: "distinct (map fst (added_files st snap))"
    unfolding added_files_def by (rule distinct_map_filter [OF dist])
  have "map_of (records ?s2) (fst pf) = None" if pf: "pf \<in> set (added_files st snap)" for pf
  proof -
    from pf have a: "pf \<in> set snap" "map_of (records st) (fst pf) = None"
      by (simp_all add: added_files_iff)
    have "fst pf \<notin> fst ` set (changed_files st snap)"
      using a(2) by (auto simp add: changed_files_iff)
    from view_records [OF fold_do_changed_view [OF this]]
    have "map_of (records ?s2) (fst pf) = map_of (records ?s1) (fst pf)" .
    moreover have "fst pf \<notin> set (removed_paths st snap)"
      using a(2) by (simp add: removed_paths_iff)
    from view_records [OF fold_do_removed_view [OF this]]
    have "map_of (records ?s1) (fst pf) = map_of (records st) (fst pf)" .
    ultimately show ?thesis using a(2) by simp
  qed
  from fold_do_added_inv [OF inv2 dadd this] show ?thesis by (simp add: reconcile_def)
qed


lemma unload_path_distinct:
  "distinct (map fst (records st)) \<Longrightarrow> distinct (map fst (records (unload_path p st)))"
  by (cases "map_of (records st) p") (simp_all add: unload_path_def distinct_update)

lemma load_and_register_distinct:
  "distinct (map fst (records st)) \<Longrightarrow> distinct (map fst (records (load_and_register p f st)))"
  by (auto simp add: load_and_register_def distinct_update split: sum.splits prod.splits)

lemma do_removed_distinct:
  "distinct (map fst (records st)) \<Longrightarrow> distinct (map fst (records (do_removed p st)))"
  by (simp add: do_removed_def Let_def distinct_delete unload_path_distinct)

lemma do_changed_distinct:
  "distinct (map fst (records st)) \<Longrightarrow> distinct (map fst (records (do_changed pf st)))"
  by (simp add: do_changed_def load_and_register_distinct unload_path_distinct)

lemma do_added_distinct:
  "distinct (map fst (records st)) \<Longrightarrow> distinct (map fst (records (do_added pf st)))"
  by (simp add: do_added_def load_and_register_distinct)

lemma fold_distinct:
  assumes "\<And>x s. distinct (map fst (records s)) \<Longrightarrow> distinct (map fst (records (g x s)))"
  shows "distinct (map fst (records st)) \<Longrightarrow> distinct (map fst (records (fold g xs st)))"
  by (induction xs arbitrary: st) (simp_all add: assms)

lemma reconcile_distinct:
  "distinct (map fst (records st)) \<Longrightarrow> distinct (map fst (records (reconcile st snap)))"
  unfolding reconcile_def
  by (intro fold_distinct do_added_distinct do_changed_distinct do_removed_distinct)

lemma sync_cycle_distinct:
  "distinct (map fst (records st)) \<Longrightarrow> distinct (map fst (records (sync_cycle st c)))"
  by (cases "fst c") (simp_all add: sync_cycle_def reconcile_distinct)

lemma foldl_sync_distinct:
  "distinct (map fst (records st)) \<Longrightarrow> distinct (map fst (records (foldl sync_cycle st cs)))"
  by (induction cs arbitrary: st) (simp_all add: sync_cycle_distinct)

lemma run_cycles_distinct: "distinct (map fst (records (run_cycles cs)))"
  unfolding run_cycles_def by (rule foldl_sync_distinct) (simp add: init_scheduler_def)

lemma sched_inv_first_cycle: "sched_inv (st\<lparr>first_cycle := b\<rparr>) = sched_inv st"
  by (simp add: sched_inv_def)

lemma sync_cycle_inv:
  "sched_inv st \<Longrightarrow> distinct (map fst (snd c)) \<Longrightarrow> sched_inv (sync_cycle st c)"
  by (cases "fst c") (simp_all add: sync_cycle_def sched_inv_first_cycle reconcile_inv)

lemma foldl_sync_inv:
  "sched_inv st \<Longrightarrow> (\<And>c. c \<in> set cs \<Longrightarrow> distinct (map fst (snd c))) \<Longrightarrow>
   sched_inv (foldl sync_cycle st cs)"
  by (induction cs arbitrary: st) (simp_all add: sync_cycle_inv)

lemma init_inv: "sched_inv init_scheduler"
  by (simp add: sched_inv_def dispatch_ok_def init_scheduler_def active_handles_def)

lemma run_cycles_inv:
  "(\<And>c. c \<in> set cs \<Longrightarrow> distinct (map fst (snd c))) \<Longrightarrow> sched_inv (run_cycles cs)"
  unfolding run_cycles_def by (rule foldl_sync_inv [OF init_inv])

lemma run_cycles_subscriptions:
  assumes wf: "\<forall>c \<in> set cycles. distinct (map fst (snd c))"
  defines "st \<equiv> run_cycles cycles"
  shows "active_handles (dispatch st)
           = \<Union> {set (rec_subs r) | p r. (p, r) \<in> set (records st) \<and> rec_status r = Loaded}"
    and "\<forall>h \<in> active_handles (dispatch st).
           \<exists>!p. \<exists>r. (p, r) \<in> set (records st) \<and> rec_status r = Loaded \<and> h \<in> set (rec_subs r)"
    and "\<forall>(p, r) \<in> set (records st). distinct (rec_subs r) \<and> (rec_status r \<noteq> Loaded \<longrightarrow> rec_subs r = [])"
    and "distinct (map fst (records st))"
    and "distinct (map fst (active (dispatch st)))"
    and "distinct (released (dispatch st))"
    and "\<forall>h. h < next_handle (dispatch st) \<longleftrightarrow>
           (h \<in> set (released (dispatch st))) \<noteq> (h \<in> active_handles (dispatch st))"
proof -
  have inv: "sched_inv st" unfolding st_def using wf by (intro run_cycles_inv) blast
  note iD = sched_invD [OF inv]
  note dD = dispatch_okD [OF iD(1)]
  show dist: "distinct (map fst (records st))" unfolding st_def by (rule run_cycles_distinct)
  have mem: "(p, r) \<in> set (records st) \<longleftrightarrow> map_of (records st) p = Some r" for p r
    using dist by simp
  have loaded: "rec_status r = Loaded" if "map_of (records st) p = Some r" "h \<in> set (rec_subs r)" for p r h
  proof (rule ccontr)
    assume "rec_status r \<noteq> Loaded"
    from iD(3) [OF that(1) this] that(2) show False by simp
  qed
  show "active_handles (dispatch st)
           = \<Union> {set (rec_subs r) | p r. (p, r) \<in> set (records st) \<and> rec_status r = Loaded}"
  proof (intro set_eqI iffI)
    fix h assume "h \<in> active_handles (dispatch st)"
    from iD(5) [OF this] obtain p r where pr: "map_of (records st) p = Some r" "h \<in> set (rec_subs r)"
      by blast
    with loaded [OF pr] show "h \<in> \<Union> {set (rec_subs r) | p r. (p, r) \<in> set (records st) \<and> rec_status r = Loaded}"
      unfolding mem by blast
  next
    fix h assume "h \<in> \<Union> {set (rec_subs r) | p r. (p, r) \<in> set (records st) \<and> rec_status r = Loaded}"
    then obtain p r where "map_of (records st) p = Some r" "h \<in> set (rec_subs r)"
      unfolding mem by blast
    then show "h \<in> active_handles (dispatch st)" by (rule iD(6))
  qed
  show "\<forall>h \<in> active_handles (dispatch st).
           \<exists>!p. \<exists>r. (p, r) \<in> set (records st) \<and> rec_status r = Loaded \<and> h \<in> set (rec_subs r)"
  proof
    fix h assume "h \<in> active_handles (dispatch st)"
    from iD(5) [OF this] obtain p r where pr: "map_of (records st) p = Some r" "h \<in> set (rec_subs r)"
      by blast
    show "\<exists>!p. \<exists>r. (p, r) \<in> set (records st) \<and> rec_status r = Loaded \<and> h \<in> set (rec_subs r)"
    proof (rule ex1I [of _ p])
      from pr loaded [OF pr]
      show "\<exists>r. (p, r) \<in> set (records st) \<and> rec_status r = Loaded \<and> h \<in> set (rec_subs r)"
        unfolding mem by blast
    next
      fix q assume "\<exists>r. (q, r) \<in> set (records st) \<and> rec_status r = Loaded \<and> h \<in> set (rec_subs r)"
      then obtain r' where q: "map_of (records st) q = Some r'" "h \<in> set (rec_subs r')"
        unfolding mem by blast
      show "q = p"
      proof (rule ccontr)
        assume "q \<noteq> p"
        from iD(4) [OF q(1) pr(1) this q(2)] pr(2) show False by simp
      qed
    qed
  qed
  show "\<forall>(p, r) \<in> set (records st). distinct (rec_subs r) \<and> (rec_status r \<noteq> Loaded \<longrightarrow> rec_subs r = [])"
    using iD(2,3) unfolding mem by (auto simp add: mem)
  show "distinct (map fst (active (dispatch st)))" by (rule dD(1))
  show "distinct (released (dispatch st))" by (rule dD(2))
  show "\<forall>h. h < next_handle (dispatch st) \<longleftrightarrow>
           (h \<in> set (released (dispatch st))) \<noteq> (h \<in> active_handles (dispatch st))"
    using dD(3,4,5,6) by blast
qed

lemma run_steps_active:
  "run_steps steps d hs = (t, hs', d') \<Longrightarrow>
     active d' = active d @ zip [next_handle d ..< next_handle d'] (subs_before_throw steps)
     \<and> next_handle d' = next_handle d + length (subs_before_throw steps)"
proof (induction steps d hs rule: run_steps.induct)
  case (1 d hs)
  then show ?case by simp
next
  case (2 re rest d hs)
  let ?d1 = "snd (subscribe (TextPattern re) d)"
  from 2(2) have run: "run_steps rest ?d1 (hs @ [next_handle d]) = (t, hs', d')"
    by (simp add: subscribe_def)
  have d1: "next_handle ?d1 = Suc (next_handle d)"
    "active ?d1 = active d @ [(next_handle d, TextPattern re)]"
    by (simp_all add: subscribe_def)
  from 2(1) [of "next_handle d" ?d1] run
  have ih: "active d' = active ?d1 @ zip [next_handle ?d1 ..< next_handle d'] (subs_before_throw rest)"
    "next_handle d' = next_handle ?d1 + length (subs_before_throw rest)"
    by (simp_all add: subscribe_def)
  from ih(2) d1(1) have lt: "next_handle d < next_handle d'" by simp
  then have upt: "[next_handle d ..< next_handle d'] = next_handle d # [next_handle ?d1 ..< next_handle d']"
    by (simp add: upt_conv_Cons d1(1))
  have "active d' = active d @ (next_handle d, TextPattern re)
          # zip [next_handle ?d1 ..< next_handle d'] (subs_before_throw rest)"
    using ih(1) d1(2) by simp
  then have a: "active d' = active d @ zip [next_handle d ..< next_handle d']
          (subs_before_throw (SubscribeText re # rest))"
    by (simp only: upt subs_before_throw.simps zip_Cons_Cons)
  have "next_handle d' = next_handle d + length (subs_before_throw (SubscribeText re # rest))"
    using ih(2) d1(1) by simp
  with a show ?case by blast
next
  case (3 kind rest d hs)
  let ?d1 = "snd (subscribe (EventKind kind) d)"
  from 3(2) have run: "run_steps rest ?d1 (hs @ [next_handle d]) = (t, hs', d')"
    by (simp add: subscribe_def)
  have d1: "next_handle ?d1 = Suc (next_handle d)"
    "active ?d1 = active d @ [(next_handle d, EventKind kind)]"
    by (simp_all add: subscribe_def)
  from 3(1) [of "next_handle d" ?d1] run
  have ih: "active d' = active ?d1 @ zip [next_handle ?d1 ..< next_handle d'] (subs_before_throw rest)"
    "next_handle d' = next_handle ?d1 + length (subs_before_throw rest)"
    by (simp_all add: subscribe_def)
  from ih(2) d1(1) have lt: "next_handle d < next_handle d'" by simp
  then have upt: "[next_handle d ..< next_handle d'] = next_handle d # [next_handle ?d1 ..< next_handle d']"
    by (simp add: upt_conv_Cons d1(1))
  have "active d' = active d @ (next_handle d, EventKind kind)
          # zip [next_handle ?d1 ..< next_handle d'] (subs_before_throw rest)"
    using ih(1) d1(2) by simp
  then have a: "active d' = active d @ zip [next_handle d ..< next_handle d']
          (subs_before_throw (SubscribeEvent kind # rest))"
    by (simp only: upt subs_before_throw.simps zip_Cons_Cons)
  have "next_handle d' = next_handle d + length (subs_before_throw (SubscribeEvent kind # rest))"
    using ih(2) d1(1) by simp
  with a show ?case by blast
next
  case (4 rest d hs)
  then show ?case by simp
next
  case (5 rest d hs)
  then show ?case by auto
qed

text \<open>
  C2. When the \<open>register\<close> entry point of a module throws, the outcome is a LoadError
  (\<open>RegisterThrew\<close>), every subscription the module made before the throw is removed
  again, so that the active subscriptions are what they were before the call, and the
  file is recorded Failed, owning no subscription.
\<close>

theorem register_throw_rolls_back:
  assumes ok: "dispatch_ok (dispatch st)"
    and ld: "load (file_module f) = Inr (steps, md)"
    and thr: "Throw \<in> set steps"
  shows "\<exists>made d0.
           run_steps steps (dispatch st) [] = (True, made, d0)
           \<and> length made = length (subs_before_throw steps)
           \<and> active d0 = active (dispatch st) @ zip made (subs_before_throw steps)
           \<and> bridge_register steps (dispatch st) = (Inl RegisterThrew, fold remove_subscription made d0)
           \<and> dispatch (load_and_register p f st) = fold remove_subscription made d0
           \<and> active (dispatch (load_and_register p f st)) = active (dispatch st)
           \<and> set made \<subseteq> set (released (dispatch (load_and_register p f st)))
           \<and> set made \<inter> active_handles (dispatch (load_and_register p f st)) = {}
           \<and> map_of (records (load_and_register p f st)) p = Some (failed_record p f)
           \<and> rec_status (failed_record p f) = Failed
           \<and> rec_subs (failed_record p f) = []"
proof -
  let ?d = "dispatch st"
  obtain t made d0 where run: "run_steps steps ?d [] = (t, made, d0)"
    by (metis prod_cases3)
  from run_steps_props [OF run] thr have t: "t = True"
    and made: "made = [next_handle ?d ..< next_handle d0]" by simp_all
  from run_steps_active [OF run] have act0:
    "active d0 = active ?d @ zip made (subs_before_throw steps)"
    "next_handle d0 = next_handle ?d + length (subs_before_throw steps)"
    by (simp_all add: made)
  have len: "length made = length (subs_before_throw steps)" using made act0(2) by simp
  have br: "bridge_register steps ?d = (Inl RegisterThrew, fold remove_subscription made d0)"
    by (simp add: bridge_register_def run t)
  have d': "dispatch (load_and_register p f st) = fold remove_subscription made d0"
    and rec: "map_of (records (load_and_register p f st)) p = Some (failed_record p f)"
    by (simp_all add: load_and_register_def ld br update_conv')
  from bridge_register_throw(1,2) [OF ok br]
  have ok': "dispatch_ok (fold remove_subscription made d0)"
    and act: "active (fold remove_subscription made d0) = active ?d" .
  have rel: "set made \<subseteq> set (released (fold remove_subscription made d0))"
    by (simp add: fold_remove_released)
  have disj: "set made \<inter> active_handles (fold remove_subscription made d0) = {}"
    by (auto simp add: fold_remove_handles)
  show ?thesis
    using run t len act0(1) br d' act rel disj rec
    by (simp add: failed_record_def)
qed

lemma bridge_register_length:
  assumes "bridge_register steps d = (Inr hs, d')"
  shows "length hs = length (subs_before_throw steps)"
proof -
  obtain t hs0 d0 where run: "run_steps steps d [] = (t, hs0, d0)"
    by (metis prod_cases3)
  with assms have eq: "t = False" "hs0 = hs" "d0 = d'"
    by (auto simp add: bridge_register_def split: if_splits bool.splits)
  from run_steps_props [OF run] have "hs0 = [next_handle d ..< next_handle d0]" by simp
  moreover from run_steps_active [OF run]
  have "next_handle d0 = next_handle d + length (subs_before_throw steps)" by simp
  ultimately show ?thesis using eq by simp
qed

lemma load_and_register_outcome:
  "\<exists>r'. map_of (records (load_and_register p f st)) p = Some r' \<and> recorded_outcome p f r'"
proof (cases "load (file_module f)")
  case (Inl e)
  then show ?thesis
    by (simp add: load_and_register_def recorded_outcome_def update_conv')
next
  case (Inr sm)
  obtain steps md where sm: "sm = (steps, md)" by (cases sm)
  obtain res d' where br: "bridge_register steps (dispatch st) = (res, d')"
    by (cases "bridge_register steps (dispatch st)")
  show ?thesis
  proof (cases res)
    case (Inl e)
    with br have "Throw \<in> set steps" by (auto dest: bridge_register_Inl_throw)
    then show ?thesis using Inr sm br Inl
      by (simp add: load_and_register_def recorded_outcome_def update_conv')
  next
    case hs: (Inr hs)
    with br have b: "bridge_register steps (dispatch st) = (Inr hs, d')" by simp
    from bridge_register_Inr_no_throw [OF b] bridge_register_length [OF b]
    show ?thesis using Inr sm b
      by (simp add: load_and_register_def recorded_outcome_def update_conv' loaded_record_def)
  qed
qed

lemma recorded_outcome_fingerprint:
  "recorded_outcome p f r \<Longrightarrow> rec_fingerprint r = file_fingerprint f \<and> rec_path r = p"
  by (auto simp add: recorded_outcome_def failed_record_def loaded_record_def
      split: sum.splits prod.splits if_splits)


lemma recorded_outcome_loaded:
  "recorded_outcome p f r \<Longrightarrow> loads_ok f \<Longrightarrow> rec_status r = Loaded"
  by (auto simp add: recorded_outcome_def loads_ok_def loaded_record_def
      split: sum.splits prod.splits if_splits)

lemma calls_of_append: "calls_of p (xs @ ys) = calls_of p xs @ calls_of p ys"
  by (simp add: calls_of_def)

lemma do_added_view_same:
  "\<exists>r'. view p (do_added (p, f) s) = (Some r', calls_of p (calls s) @ [LoadCall p])
        \<and> recorded_outcome p f r'"
  using load_and_register_outcome [of p f s]
  by (auto simp add: view_def do_added_def load_and_register_calls calls_of_append)
     (simp add: calls_of_def)

lemma do_changed_view_same:
  assumes "map_of (records s) p = Some r"
  shows "\<exists>r'. view p (do_changed (p, f) s) = (Some r', calls_of p (calls s) @ [UnloadCall p, LoadCall p])
        \<and> recorded_outcome p f r'"
proof -
  have c: "calls (unload_path p s) = calls s @ [UnloadCall p]"
    by (rule unload_path_Some(3) [OF assms])
  have "calls_of p (calls (do_changed (p, f) s)) = calls_of p (calls s) @ [UnloadCall p, LoadCall p]"
    by (simp add: do_changed_def load_and_register_calls c calls_of_def)
  with load_and_register_outcome [of p f "unload_path p s"] show ?thesis
    by (auto simp add: view_def do_changed_def)
qed

lemma do_removed_records_same: "map_of (records (do_removed p s)) p = None"
  by (simp add: do_removed_def Let_def delete_conv')

lemma fold_do_removed_records:
  "map_of (records (fold do_removed ps st)) q = (if q \<in> set ps then None else map_of (records st) q)"
proof (induction ps arbitrary: st)
  case Nil
  then show ?case by simp
next
  case (Cons p ps)
  show ?case
  proof (cases "q = p")
    case True
    with Cons.IH [of "do_removed p st"] show ?thesis
      by (auto simp add: do_removed_records_same)
  next
    case False
    from view_records [OF do_removed_other [OF False]] show ?thesis
      using False by (simp add: Cons.IH)
  qed
qed

lemma changed_files_distinct:
  "distinct (map fst snap) \<Longrightarrow> distinct (map fst (changed_files st snap))"
  unfolding changed_files_def by (rule distinct_map_filter)

lemma added_files_distinct:
  "distinct (map fst snap) \<Longrightarrow> distinct (map fst (added_files st snap))"
  unfolding added_files_def by (rule distinct_map_filter)

lemma reconcile_absent:
  assumes "map_of snap p = None"
  shows "map_of (records (reconcile st snap)) p = None"
proof -
  let ?s1 = "fold do_removed (removed_paths st snap) st"
  let ?s2 = "fold do_changed (changed_files st snap) ?s1"
  have notin: "p \<notin> fst ` set snap" using assms by (simp add: map_of_eq_None_iff)
  have "p \<notin> fst ` set (added_files st snap)" using notin by (auto simp add: added_files_def)
  from view_records [OF fold_do_added_view [OF this]]
  have "map_of (records (reconcile st snap)) p = map_of (records ?s2) p"
    by (simp add: reconcile_def)
  moreover have "p \<notin> fst ` set (changed_files st snap)" using notin by (auto simp add: changed_files_def)
  from view_records [OF fold_do_changed_view [OF this]]
  have "map_of (records ?s2) p = map_of (records ?s1) p" .
  moreover have "map_of (records ?s1) p = None"
    using assms by (auto simp add: fold_do_removed_records removed_paths_iff)
  ultimately show ?thesis by simp
qed

lemma reconcile_unchanged:
  assumes "pf \<in> set snap" and "map_of (records st) (fst pf) = Some r"
    and "rec_fingerprint r = file_fingerprint (snd pf)"
    and dist: "distinct (map fst snap)"
  shows "view (fst pf) (reconcile st snap) = view (fst pf) st"
proof -
  let ?p = "fst pf"
  let ?s1 = "fold do_removed (removed_paths st snap) st"
  let ?s2 = "fold do_changed (changed_files st snap) ?s1"
  have "?p \<notin> fst ` set (added_files st snap)"
    using assms(2) by (auto simp add: added_files_iff)
  from fold_do_added_view [OF this]
  have "view ?p (reconcile st snap) = view ?p ?s2" by (simp add: reconcile_def)
  moreover have "?p \<notin> fst ` set (changed_files st snap)"
  proof
    assume "?p \<in> fst ` set (changed_files st snap)"
    then obtain g where g: "(?p, g) \<in> set snap" "rec_fingerprint r \<noteq> file_fingerprint g"
      using assms(2) by (auto simp add: changed_files_iff)
    from assms(1) have "(?p, snd pf) \<in> set snap" by simp
    from eq_key_imp_eq_value [OF dist g(1) this] g(2) assms(3) show False by simp
  qed
  from fold_do_changed_view [OF this] have "view ?p ?s2 = view ?p ?s1" .
  moreover have "?p \<notin> set (removed_paths st snap)"
    using in_snap_map_of [OF assms(1)] by (simp add: removed_paths_iff)
  from fold_do_removed_view [OF this] have "view ?p ?s1 = view ?p st" .
  ultimately show ?thesis by simp
qed

lemma unload_path_released:
  "set (released (dispatch st)) \<subseteq> set (released (dispatch (unload_path p st)))"
  by (cases "map_of (records st) p") (simp_all add: unload_path_def unload_def fold_remove_released)

lemma do_removed_released:
  "R \<subseteq> set (released (dispatch s)) \<Longrightarrow> R \<subseteq> set (released (dispatch (do_removed p s)))"
  using unload_path_released [of s p] by (auto simp add: do_removed_def Let_def)

lemma do_changed_released:
  "R \<subseteq> set (released (dispatch s)) \<Longrightarrow> R \<subseteq> set (released (dispatch (do_changed pf s)))"
  using unload_path_released [of s "fst pf"]
    load_and_register_released [of "unload_path (fst pf) s" "fst pf" "snd pf"]
  unfolding do_changed_def by blast

lemma do_added_released:
  "R \<subseteq> set (released (dispatch s)) \<Longrightarrow> R \<subseteq> set (released (dispatch (do_added pf s)))"
  using load_and_register_released [of s "fst pf" "snd pf"]
  unfolding do_added_def by blast

lemma fold_do_changed_released:
  "R \<subseteq> set (released (dispatch st)) \<Longrightarrow> R \<subseteq> set (released (dispatch (fold do_changed xs st)))"
  by (induction xs arbitrary: st) (simp_all add: do_changed_released)

lemma fold_do_added_released:
  "R \<subseteq> set (released (dispatch st)) \<Longrightarrow> R \<subseteq> set (released (dispatch (fold do_added xs st)))"
  by (induction xs arbitrary: st) (simp_all add: do_added_released)

lemma do_changed_releases:
  assumes "map_of (records s) p = Some r"
  shows "set (rec_subs r) \<subseteq> set (released (dispatch (do_changed (p, f) s)))"
proof -
  have "set (rec_subs r) \<subseteq> set (released (dispatch (unload_path p s)))"
    by (simp add: unload_path_Some(2) [OF assms] fold_remove_released)
  with load_and_register_released [of "unload_path p s" p f] show ?thesis
    unfolding do_changed_def by auto
qed

lemma reconcile_changed:
  assumes dist: "distinct (map fst snap)" and mem: "(p, f) \<in> set snap"
    and tracked: "map_of (records st) p = Some r"
    and differs: "rec_fingerprint r \<noteq> file_fingerprint f"
  shows "\<exists>r'. view p (reconcile st snap)
                 = (Some r', calls_of p (calls st) @ [UnloadCall p, LoadCall p])
               \<and> recorded_outcome p f r'"
    and "set (rec_subs r) \<subseteq> set (released (dispatch (reconcile st snap)))"
proof -
  let ?s1 = "fold do_removed (removed_paths st snap) st"
  let ?cs = "changed_files st snap"
  let ?s2 = "fold do_changed ?cs ?s1"
  have "p \<notin> set (removed_paths st snap)"
    using in_snap_map_of [OF mem] by (simp add: removed_paths_iff)
  from fold_do_removed_view [OF this] have v1: "view p ?s1 = view p st" .
  have "(p, f) \<in> set ?cs" using mem tracked differs by (simp add: changed_files_iff)
  from split_distinct_key [OF changed_files_distinct [OF dist] this]
  obtain xs1 xs2 where sp: "?cs = xs1 @ (p, f) # xs2"
    "p \<notin> fst ` set xs1" "p \<notin> fst ` set xs2" by auto
  let ?a = "fold do_changed xs1 ?s1"
  let ?b = "do_changed (p, f) ?a"
  have s2: "?s2 = fold do_changed xs2 ?b" by (simp add: sp(1))
  from fold_do_changed_view [OF sp(2)] v1 have va: "view p ?a = view p st" by simp
  then have ra: "map_of (records ?a) p = Some r" and ca: "calls_of p (calls ?a) = calls_of p (calls st)"
    using tracked by (simp_all add: view_def)
  from do_changed_view_same [OF ra, of f] ca obtain r' where
    vb: "view p ?b = (Some r', calls_of p (calls st) @ [UnloadCall p, LoadCall p])"
    and out: "recorded_outcome p f r'" by auto
  from fold_do_changed_view [OF sp(3)] have v2: "view p ?s2 = view p ?b" by (simp add: s2)
  have "p \<notin> fst ` set (added_files st snap)" using tracked by (auto simp add: added_files_iff)
  from fold_do_added_view [OF this] have v3: "view p (reconcile st snap) = view p ?s2"
    by (simp add: reconcile_def)
  from v3 v2 vb out
  show "\<exists>r'. view p (reconcile st snap)
                 = (Some r', calls_of p (calls st) @ [UnloadCall p, LoadCall p])
               \<and> recorded_outcome p f r'" by simp
  have "set (rec_subs r) \<subseteq> set (released (dispatch ?b))" by (rule do_changed_releases [OF ra])
  then have "set (rec_subs r) \<subseteq> set (released (dispatch ?s2))"
    unfolding s2 by (rule fold_do_changed_released)
  then show "set (rec_subs r) \<subseteq> set (released (dispatch (reconcile st snap)))"
    unfolding reconcile_def by (rule fold_do_added_released)
qed

lemma reconcile_added:
  assumes dist: "distinct (map fst snap)" and mem: "(p, f) \<in> set snap"
    and untracked: "map_of (records st) p = None"
  shows "\<exists>r'. view p (reconcile st snap) = (Some r', calls_of p (calls st) @ [LoadCall p])
               \<and> recorded_outcome p f r'"
proof -
  let ?s1 = "fold do_removed (removed_paths st snap) st"
  let ?s2 = "fold do_changed (changed_files st snap) ?s1"
  let ?as = "added_files st snap"
  have "p \<notin> set (removed_paths st snap)"
    using in_snap_map_of [OF mem] by (simp add: removed_paths_iff)
  from fold_do_removed_view [OF this] have v1: "view p ?s1 = view p st" .
  have "p \<notin> fst ` set (changed_files st snap)"
    using untracked by (auto simp add: changed_files_iff)
  from fold_do_changed_view [OF this] v1 have v2: "view p ?s2 = view p st" by simp
  have "(p, f) \<in> set ?as" using mem untracked by (simp add: added_files_iff)
  from split_distinct_key [OF added_files_distinct [OF dist] this]
  obtain xs1 xs2 where sp: "?as = xs1 @ (p, f) # xs2"
    "p \<notin> fst ` set xs1" "p \<notin> fst ` set xs2" by auto
  let ?a = "fold do_added xs1 ?s2"
  let ?b = "do_added (p, f) ?a"
  have fin: "reconcile st snap = fold do_added xs2 ?b" by (simp add: reconcile_def sp(1))
  from fold_do_added_view [OF sp(2)] v2 have "view p ?a = view p st" by simp
  then have ca: "calls_of p (calls ?a) = calls_of p (calls st)" by (simp add: view_def)
  from do_added_view_same [of p f ?a] ca obtain r' where
    vb: "view p ?b = (Some r', calls_of p (calls st) @ [LoadCall p])"
    and out: "recorded_outcome p f r'" by auto
  from fold_do_added_view [OF sp(3)] have "view p (reconcile st snap) = view p ?b"
    by (simp add: fin)
  with vb out show ?thesis by simp
qed

lemma reconcile_tracks:
  assumes dist: "distinct (map fst snap)" and mem: "(p, f) \<in> set snap"
  shows "\<exists>r. map_of (records (reconcile st snap)) p = Some r \<and> rec_fingerprint r = file_fingerprint f"
proof (cases "map_of (records st) p")
  case None
  from reconcile_added [OF dist mem None] show ?thesis
    by (auto simp add: view_def dest: recorded_outcome_fingerprint)
next
  case (Some r)
  show ?thesis
  proof (cases "rec_fingerprint r = file_fingerprint f")
    case True
    from reconcile_unchanged [of "(p, f)" snap st r] mem Some True dist
    have "map_of (records (reconcile st snap)) p = Some r" by (simp add: view_def)
    with True show ?thesis by simp
  next
    case False
    from reconcile_changed(1) [OF dist mem Some False] show ?thesis
      by (auto simp add: view_def dest: recorded_outcome_fingerprint)
  qed
qed




lemmas loader_defs =
  run_cycles_def sync_cycle_def reconcile_def init_scheduler_def added_files_def
  changed_files_def removed_paths_def do_added_def do_changed_def do_removed_def
  load_and_register_def unload_path_def unload_def bridge_register_def subscribe_def
  remove_subscription_def loaded_record_def failed_record_def hello_file_def
  hello_file_edited_def broken_file_def active_handles_def scenario_cycles_def
  throwing_file_def

theorem register_throw_rolls_back_witness:
  "(\<exists>made d0.
      run_steps [SubscribeText hello_pattern, SubscribeEvent ''callback_query'', Throw]
        (dispatch init_scheduler) [] = (True, made, d0)
      \<and> length made = 2
      \<and> bridge_register [SubscribeText hello_pattern, SubscribeEvent ''callback_query'', Throw]
          (dispatch init_scheduler) = (Inl RegisterThrew, fold remove_subscription made d0)
      \<and> set made \<subseteq> set (released (dispatch (load_and_register ''half.js'' throwing_file init_scheduler))))
   \<and> active (dispatch (load_and_register ''half.js'' throwing_file init_scheduler)) = []
   \<and> released (dispatch (load_and_register ''half.js'' throwing_file init_scheduler)) = [0, Suc 0]
   \<and> map_of (records (load_and_register ''half.js'' throwing_file init_scheduler)) ''half.js''
       = Some (failed_record ''half.js'' throwing_file)"
proof -
  have ok: "dispatch_ok (dispatch init_scheduler)"
    by (simp add: dispatch_ok_def init_scheduler_def active_handles_def)
  have ld: "load (file_module throwing_file)
      = Inr ([SubscribeText hello_pattern, SubscribeEvent ''callback_query'', Throw], None)"
    by (simp add: throwing_file_def)
  have thr: "Throw \<in> set [SubscribeText hello_pattern, SubscribeEvent ''callback_query'', Throw]"
    by simp
  from register_throw_rolls_back [OF ok ld thr, of "''half.js''"]
  have a: "\<exists>made d0.
      run_steps [SubscribeText hello_pattern, SubscribeEvent ''callback_query'', Throw]
        (dispatch init_scheduler) [] = (True, made, d0)
      \<and> length made = 2
      \<and> bridge_register [SubscribeText hello_pattern, SubscribeEvent ''callback_query'', Throw]
          (dispatch init_scheduler) = (Inl RegisterThrew, fold remove_subscription made d0)
      \<and> set made \<subseteq> set (released (dispatch (load_and_register ''half.js'' throwing_file init_scheduler)))"
    and b: "map_of (records (load_and_register ''half.js'' throwing_file init_scheduler)) ''half.js''
       = Some (failed_record ''half.js'' throwing_file)"
    by auto
  have c: "active (dispatch (load_and_register ''half.js'' throwing_file init_scheduler)) = []"
    "released (dispatch (load_and_register ''half.js'' throwing_file init_scheduler)) = [0, Suc 0]"
    by (simp_all add: loader_defs)
  from a b c show ?thesis by blast
qed

lemma final_active:
  assumes inv: "sched_inv st'" and rec: "map_of (records st') q = Some r'"
  shows "set (rec_subs r') \<subseteq> active_handles (dispatch st')"
  using sched_invD(6) [OF inv rec] by blast

lemma released_not_active:
  assumes inv: "sched_inv st'" and rel: "R \<subseteq> set (released (dispatch st'))"
  shows "R \<inter> active_handles (dispatch st') = {}"
  using dispatch_okD(3) [OF sched_invD(1) [OF inv]] rel by blast



lemma fold_do_removed_released:
  "R \<subseteq> set (released (dispatch st)) \<Longrightarrow> R \<subseteq> set (released (dispatch (fold do_removed xs st)))"
  by (induction xs arbitrary: st) (simp_all add: do_removed_released)

lemma do_removed_releases:
  assumes "map_of (records s) p = Some r"
  shows "set (rec_subs r) \<subseteq> set (released (dispatch (do_removed p s)))"
  by (simp add: do_removed_def Let_def unload_path_Some(2) [OF assms] fold_remove_released)

lemma reconcile_removed:
  assumes tracked: "map_of (records st) p = Some r" and gone: "map_of snap p = None"
  shows "set (rec_subs r) \<subseteq> set (released (dispatch (reconcile st snap)))"
proof -
  let ?ps = "removed_paths st snap"
  have "p \<in> set ?ps" using tracked gone by (simp add: removed_paths_iff)
  then obtain xs1 xs2 where sp: "?ps = xs1 @ p # xs2" "p \<notin> set xs1"
    by (auto dest: split_list_first)
  let ?a = "fold do_removed xs1 st"
  let ?b = "do_removed p ?a"
  have s1: "fold do_removed ?ps st = fold do_removed xs2 ?b" by (simp add: sp(1))
  from view_records [OF fold_do_removed_view [OF sp(2)]] tracked
  have "map_of (records ?a) p = Some r" by simp
  then have "set (rec_subs r) \<subseteq> set (released (dispatch ?b))" by (rule do_removed_releases)
  then have "set (rec_subs r) \<subseteq> set (released (dispatch (fold do_removed ?ps st)))"
    unfolding s1 by (rule fold_do_removed_released)
  then have "set (rec_subs r) \<subseteq> set (released (dispatch
      (fold do_changed (changed_files st snap) (fold do_removed ?ps st))))"
    by (rule fold_do_changed_released)
  then show ?thesis unfolding reconcile_def by (rule fold_do_added_released)
qed

lemma reconcile_paths:
  assumes dist: "distinct (map fst snap)"
  shows "fst ` set (records (reconcile st snap)) = fst ` set snap"
proof (intro set_eqI iffI)
  fix p assume "p \<in> fst ` set (records (reconcile st snap))"
  then have "map_of (records (reconcile st snap)) p \<noteq> None" by (simp add: map_of_eq_None_iff)
  with reconcile_absent [of snap p st] have "map_of snap p \<noteq> None" by auto
  then show "p \<in> fst ` set snap" by (simp add: map_of_eq_None_iff)
next
  fix p assume "p \<in> fst ` set snap"
  then obtain f where "(p, f) \<in> set snap" by auto
  from reconcile_tracks [OF dist this, of st] obtain r where
    "map_of (records (reconcile st snap)) p = Some r" by blast
  then have "(p, r) \<in> set (records (reconcile st snap))" by (rule map_of_SomeD)
  then show "p \<in> fst ` set (records (reconcile st snap))" by (metis fst_conv imageI)
qed

lemma reconcile_file_record:
  assumes dist: "distinct (map fst snap)" and mem: "(p, f) \<in> set snap"
  shows "\<exists>r. map_of (records (reconcile st snap)) p = Some r
           \<and> rec_fingerprint r = file_fingerprint f
           \<and> (map_of (records st) p = Some r \<or> recorded_outcome p f r)"
proof (cases "map_of (records st) p")
  case None
  from reconcile_added [OF dist mem None] show ?thesis
    by (auto simp add: view_def dest: recorded_outcome_fingerprint)
next
  case (Some r)
  show ?thesis
  proof (cases "rec_fingerprint r = file_fingerprint f")
    case True
    from reconcile_unchanged [of "(p, f)" snap st r] mem Some True dist
    have "map_of (records (reconcile st snap)) p = Some r" by (simp add: view_def)
    with True Some show ?thesis by simp
  next
    case False
    from reconcile_changed(1) [OF dist mem Some False] show ?thesis
      by (auto simp add: view_def dest: recorded_outcome_fingerprint)
  qed
qed





text \<open>
  C1. After the reconciliation of any sync cycle (any number of cycles from process
  start, then a snapshot; paths distinct within each snapshot), the active subscriptions
  are exactly the union of the subscriptions owned by the Loaded records; each active
  subscription is owned by exactly one record, and only once; a record that is not
  Loaded owns none; every handle the dispatch layer has issued is either active or has
  been released, never both and never released twice. The records are those of the
  snapshot's paths: a path that was tracked and is no longer in the snapshot has no
  record, and all the subscriptions its record owned have been released and are not
  active; every file of the snapshot has a record with its fingerprint, which is the
  record it had or the outcome of loading and registering the file, and whose
  subscriptions are active.
\<close>

theorem reconciliation_subscriptions:
  assumes wf: "\<forall>c \<in> set cycles. distinct (map fst (snd c))"
    and dist: "distinct (map fst snap)"
  shows "active_handles (dispatch (reconcile (run_cycles cycles) snap))
           = \<Union> {set (rec_subs r) | p r.
                 (p, r) \<in> set (records (reconcile (run_cycles cycles) snap)) \<and> rec_status r = Loaded}
       \<and> (\<forall>h \<in> active_handles (dispatch (reconcile (run_cycles cycles) snap)).
             \<exists>!p. \<exists>r. (p, r) \<in> set (records (reconcile (run_cycles cycles) snap))
                     \<and> rec_status r = Loaded \<and> h \<in> set (rec_subs r))
       \<and> (\<forall>(p, r) \<in> set (records (reconcile (run_cycles cycles) snap)).
             distinct (rec_subs r) \<and> (rec_status r \<noteq> Loaded \<longrightarrow> rec_subs r = []))
       \<and> distinct (map fst (records (reconcile (run_cycles cycles) snap)))
       \<and> distinct (map fst (active (dispatch (reconcile (run_cycles cycles) snap))))
       \<and> distinct (released (dispatch (reconcile (run_cycles cycles) snap)))
       \<and> (\<forall>h. h < next_handle (dispatch (reconcile (run_cycles cycles) snap)) \<longleftrightarrow>
             (h \<in> set (released (dispatch (reconcile (run_cycles cycles) snap))))
               \<noteq> (h \<in> active_handles (dispatch (reconcile (run_cycles cycles) snap))))
       \<and> fst ` set (records (reconcile (run_cycles cycles) snap)) = fst ` set snap
       \<and> (\<forall>p r. map_of (records (run_cycles cycles)) p = Some r \<and> map_of snap p = None \<longrightarrow>
             map_of (records (reconcile (run_cycles cycles) snap)) p = None
             \<and> set (rec_subs r) \<subseteq> set (released (dispatch (reconcile (run_cycles cycles) snap)))
             \<and> set (rec_subs r) \<inter> active_handles (dispatch (reconcile (run_cycles cycles) snap)) = {})
       \<and> (\<forall>(p, f) \<in> set snap.
             \<exists>r. map_of (records (reconcile (run_cycles cycles) snap)) p = Some r
               \<and> rec_fingerprint r = file_fingerprint f
               \<and> (map_of (records (run_cycles cycles)) p = Some r \<or> recorded_outcome p f r)
               \<and> set (rec_subs r) \<subseteq> active_handles (dispatch (reconcile (run_cycles cycles) snap)))
       \<and> records (run_cycles (cycles @ [(RevisionChanged, snap)]))
           = records (reconcile (run_cycles cycles) snap)
       \<and> dispatch (run_cycles (cycles @ [(RevisionChanged, snap)]))
           = dispatch (reconcile (run_cycles cycles) snap)"
proof -
  let ?st = "run_cycles cycles"
  let ?st' = "reconcile ?st snap"
  let ?cs = "cycles @ [(RevisionChanged, snap)]"
  have run: "run_cycles ?cs = ?st'\<lparr>first_cycle := False\<rparr>"
    by (simp add: run_cycles_def sync_cycle_def)
  have wf': "\<forall>c \<in> set ?cs. distinct (map fst (snd c))" using wf dist by simp
  have t11: "records (run_cycles ?cs) = records ?st'" "dispatch (run_cycles ?cs) = dispatch ?st'"
    by (simp_all add: run)
  note r = run_cycles_subscriptions [OF wf', unfolded t11]
  have inv: "sched_inv ?st" using wf by (intro run_cycles_inv) blast
  have inv': "sched_inv ?st'" by (rule reconcile_inv [OF inv dist])
  have t8: "fst ` set (records ?st') = fst ` set snap" by (rule reconcile_paths [OF dist])
  have t9: "map_of (records ?st') p = None
             \<and> set (rec_subs r) \<subseteq> set (released (dispatch ?st'))
             \<and> set (rec_subs r) \<inter> active_handles (dispatch ?st') = {}"
    if "map_of (records ?st) p = Some r" "map_of snap p = None" for p r
    using reconcile_absent [OF that(2), of ?st] reconcile_removed [OF that]
      released_not_active [OF inv' reconcile_removed [OF that]] by simp
  have t10: "\<exists>r. map_of (records ?st') p = Some r
               \<and> rec_fingerprint r = file_fingerprint f
               \<and> (map_of (records ?st) p = Some r \<or> recorded_outcome p f r)
               \<and> set (rec_subs r) \<subseteq> active_handles (dispatch ?st')"
    if "(p, f) \<in> set snap" for p f
  proof -
    from reconcile_file_record [OF dist that, of ?st] obtain r where
      r: "map_of (records ?st') p = Some r" "rec_fingerprint r = file_fingerprint f"
         "map_of (records ?st) p = Some r \<or> recorded_outcome p f r" by blast
    with final_active [OF inv' r(1)] show ?thesis by blast
  qed
  have t10': "\<forall>(p, f) \<in> set snap.
             \<exists>r. map_of (records ?st') p = Some r
               \<and> rec_fingerprint r = file_fingerprint f
               \<and> (map_of (records ?st) p = Some r \<or> recorded_outcome p f r)
               \<and> set (rec_subs r) \<subseteq> active_handles (dispatch ?st')"
    using t10 by blast
  have t9': "\<forall>p r. map_of (records ?st) p = Some r \<and> map_of snap p = None \<longrightarrow>
             map_of (records ?st') p = None
             \<and> set (rec_subs r) \<subseteq> set (released (dispatch ?st'))
             \<and> set (rec_subs r) \<inter> active_handles (dispatch ?st') = {}"
    using t9 by blast
  show ?thesis by (intro conjI r t8 t9' t10' t11)
qed

theorem reconciliation_subscriptions_witness:
  "active_handles (dispatch (reconcile (run_cycles scenario_cycles) [(''broken.js'', broken_file)]))
     = \<Union> {set (rec_subs r) | p r.
           (p, r) \<in> set (records (reconcile (run_cycles scenario_cycles) [(''broken.js'', broken_file)]))
           \<and> rec_status r = Loaded}
   \<and> fst ` set (records (reconcile (run_cycles scenario_cycles) [(''broken.js'', broken_file)]))
       = fst ` set [(''broken.js'', broken_file)]
   \<and> map (\<lambda>(p, r). (p, rec_status r, rec_subs r)) (records (run_cycles scenario_cycles))
       = [(''hello.js'', Loaded, [Suc 0, Suc (Suc 0)]), (''broken.js'', Failed, [])]
   \<and> map_of (records (reconcile (run_cycles scenario_cycles) [(''broken.js'', broken_file)])) ''hello.js''
       = None
   \<and> set [Suc 0, Suc (Suc 0)]
         \<inter> active_handles (dispatch (reconcile (run_cycles scenario_cycles) [(''broken.js'', broken_file)]))
       = {}
   \<and> active (dispatch (reconcile (run_cycles scenario_cycles) [(''broken.js'', broken_file)])) = []
   \<and> released (dispatch (reconcile (run_cycles scenario_cycles) [(''broken.js'', broken_file)]))
       = [0, Suc 0, Suc (Suc 0)]"
proof -
  let ?S = "[(''broken.js'', broken_file)]"
  let ?r = "loaded_record ''hello.js'' hello_file_edited
      (Some \<lparr>md_name = ''Hello World'', md_category = ''Test'',
             md_description = ''A simple external command to test the loader'',
             md_commands = []\<rparr>) [Suc 0, Suc (Suc 0)]"
  have wf: "\<forall>c \<in> set scenario_cycles. distinct (map fst (snd c))"
    by (simp add: scenario_cycles_def)
  have dist: "distinct (map fst ?S)" by simp
  note t = reconciliation_subscriptions [OF wf dist]
  note t1 = t [THEN conjunct1]
  note t8 = t [THEN conjunct2, THEN conjunct2, THEN conjunct2, THEN conjunct2, THEN conjunct2,
      THEN conjunct2, THEN conjunct2, THEN conjunct1]
  have gone: "map_of (records (run_cycles scenario_cycles)) ''hello.js'' = Some ?r
      \<and> map_of ?S ''hello.js'' = None"
    by (simp add: loader_defs)
  note t9 = t [THEN conjunct2, THEN conjunct2, THEN conjunct2, THEN conjunct2, THEN conjunct2,
      THEN conjunct2, THEN conjunct2, THEN conjunct2, THEN conjunct1,
      THEN spec [where x = "''hello.js''"], THEN spec [where x = ?r], THEN mp, OF gone]
  have subs: "rec_subs ?r = [Suc 0, Suc (Suc 0)]" by (simp add: loaded_record_def)
  have ev: "map (\<lambda>(p, r). (p, rec_status r, rec_subs r)) (records (run_cycles scenario_cycles))
       = [(''hello.js'', Loaded, [Suc 0, Suc (Suc 0)]), (''broken.js'', Failed, [])]"
    "active (dispatch (reconcile (run_cycles scenario_cycles) ?S)) = []"
    "released (dispatch (reconcile (run_cycles scenario_cycles) ?S)) = [0, Suc 0, Suc (Suc 0)]"
    by (simp_all add: loader_defs)
  from t9 subs have
    "map_of (records (reconcile (run_cycles scenario_cycles) ?S)) ''hello.js'' = None"
    "set [Suc 0, Suc (Suc 0)] \<inter> active_handles (dispatch (reconcile (run_cycles scenario_cycles) ?S)) = {}"
    by simp_all
  with t1 t8 ev show ?thesis by (intro conjI)
qed


end
